theory Spec2Isabelle
  imports Main
begin

section \<open>Promises on a logical clock\<close>

text \<open>
  The two components of \<^verbatim>\<open>src/async-data.ts\<close> run on one event loop. Time is the
  millisecond clock that \<^verbatim>\<open>Date.now()\<close> reads, an integer. A pending operation is a
  handle to work whose result becomes available at some instant: it settles at
  \<open>settles_at\<close>, fulfilled with a value or rejected with a reason. The settle
  result is the \<^verbatim>\<open>PromiseSettledResult\<close> of the platform
  (\<^verbatim>\<open>{status: "fulfilled", value}\<close> or \<^verbatim>\<open>{status: "rejected", reason}\<close>).
\<close>

datatype ('v, 'e) settled = Fulfilled 'v | Rejected 'e

record ('v, 'e) promise =
  settles_at :: int
  outcome :: "('v, 'e) settled"

text \<open>
  \<^verbatim>\<open>await Promise.allSettled(ps)\<close> begun at instant \<open>t\<close>: the results come in the
  order of \<open>ps\<close>, and the caller resumes once the last of them has settled (at
  once when all had settled before, or when \<open>ps\<close> is empty).
\<close>

definition allSettled ::
  "('v, 'e) promise list \<Rightarrow> int \<Rightarrow> ('v, 'e) settled list \<times> int" where
  "allSettled ps t = (map outcome ps, fold max (map settles_at ps) t)"

section \<open>The chunked batch executor\<close>

text \<open>
  The operations handed to the executor are promises as above, each settling at some
  instant. The chunk size is an integer, of either sign, so the index arithmetic of the
  loop is exact.
\<close>

text \<open>
  \<^verbatim>\<open>Array.prototype.slice(start, end)\<close> on integral arguments: a negative index
  counts from the end of the array, and both indices are clamped to the array.
\<close>

definition slice :: "'a list \<Rightarrow> int \<Rightarrow> int \<Rightarrow> 'a list" where
  "slice xs start stop =
     (let len = int (length xs);
          k = (if start < 0 then max (len + start) 0 else min start len);
          final = (if stop < 0 then max (len + stop) 0 else min stop len)
      in take (nat (final - k)) (drop (nat k) xs))"

record ('v, 'e) finalResults =
  resolved :: "'v list"
  rejected :: "'e list"

text \<open>
  The \<^verbatim>\<open>for (const result of ...)\<close> loop of lines 76-82 and 89-95: a fulfilled
  result pushes its value onto \<open>resolved\<close>, any other pushes its reason onto
  \<open>rejected\<close>.
\<close>

fun push_results ::
  "('v, 'e) settled list \<Rightarrow> ('v, 'e) finalResults \<Rightarrow> ('v, 'e) finalResults" where
  "push_results [] fr = fr"
| "push_results (Fulfilled v # rs) fr = push_results rs (fr\<lparr>resolved := resolved fr @ [v]\<rparr>)"
| "push_results (Rejected r # rs) fr = push_results rs (fr\<lparr>rejected := rejected fr @ [r]\<rparr>)"

text \<open>
  The running executor: the results collected so far, the clock, and a log of every
  \<^verbatim>\<open>await Promise.allSettled(...)\<close> it has performed, each with the instant at which
  the wait began and the window waited on. The log is what a test harness observes
  with timestamps; the code's own state is \<open>results\<close>.
\<close>

record ('v, 'e) exec =
  results :: "('v, 'e) finalResults"
  clock :: int
  awaited :: "(int \<times> ('v, 'e) promise list) list"

definition await_window ::
  "('v, 'e) promise list \<Rightarrow> ('v, 'e) exec \<Rightarrow> ('v, 'e) exec" where
  "await_window chunk ex =
     (let (chunkResults, t) = allSettled chunk (clock ex)
      in \<lparr>results = push_results chunkResults (results ex),
          clock = t,
          awaited = awaited ex @ [(clock ex, chunk)]\<rparr>)"

text \<open>
  The loop of lines 86-96,
  \<^verbatim>\<open>for (let index = 0; index < promises.length; index += chunkSize)\<close>. With a
  negative \<open>chunkSize\<close> the index never reaches the length, so the loop is a partial
  function: \<open>None\<close> is a call that never returns.
\<close>

partial_function (option) batch_loop ::
  "('v, 'e) promise list \<Rightarrow> int \<Rightarrow> int \<Rightarrow> ('v, 'e) exec \<Rightarrow> ('v, 'e) exec option" where
  "batch_loop promises chunkSize index ex =
     (if index < int (length promises)
      then batch_loop promises chunkSize (index + chunkSize)
             (await_window (slice promises index (index + chunkSize)) ex)
      else Some ex)"

definition batch_exec ::
  "('v, 'e) promise list \<Rightarrow> int \<Rightarrow> int \<Rightarrow> ('v, 'e) exec option" where
  "batch_exec promises chunkSize now =
     (let ex = \<lparr>results = \<lparr>resolved = [], rejected = []\<rparr>, clock = now, awaited = []\<rparr>
      in if chunkSize = 0 then Some (await_window promises ex)
         else batch_loop promises chunkSize 0 ex)"

text \<open>
  \<open>batch_exec\<close> is the run of the body for as long as the process lives. A promise
  has a rejection handler from the executor only once the \<^verbatim>\<open>Promise.allSettled\<close> of
  its own window has been called (lines 75 and 88). A promise that rejects before that,
  in a window whose wait begins after the instant of the call, is rejected with no
  handler attached: an unhandled rejection, on which the platform by default ends the
  process. (A window whose wait begins at the instant of the call gets its handlers in
  the turn of the call itself.) The operations are taken to have no handler besides the
  executor's, as in the documentation's example.
\<close>

definition rejected_before :: "int \<Rightarrow> ('v, 'e) promise \<Rightarrow> bool" where
  "rejected_before t p = (case outcome p of Fulfilled v \<Rightarrow> False | Rejected e \<Rightarrow> settles_at p < t)"

definition unhandled_rejection ::
  "int \<Rightarrow> (int \<times> ('v, 'e) promise list) list \<Rightarrow> bool" where
  "unhandled_rejection now log =
     (\<exists>(t, w) \<in> set log. now < t \<and> (\<exists>p \<in> set w. rejected_before t p))"

text \<open>
  \<^verbatim>\<open>batchPromiseAllSettled(promises, chunkSize)\<close> called at instant \<open>now\<close>. An async
  function returns a promise. \<open>None\<close> is a call that yields nothing: the loop never
  exits, or the process ends on an unhandled rejection. The body has no \<^verbatim>\<open>throw\<close>,
  so a promise that does settle is fulfilled with \<open>finalResults\<close>.
\<close>

definition batchPromiseAllSettled ::
  "('v, 'e) promise list \<Rightarrow> int \<Rightarrow> int \<Rightarrow> (('v, 'e) finalResults, 'e) promise option" where
  "batchPromiseAllSettled promises chunkSize now =
     (case batch_exec promises chunkSize now of
        None \<Rightarrow> None
      | Some ex \<Rightarrow>
          if unhandled_rejection now (awaited ex) then None
          else Some \<lparr>settles_at = clock ex, outcome = Fulfilled (results ex)\<rparr>)"

subsection \<open>What the executor is measured against\<close>

text \<open>
  The values of the fulfilled results and the reasons of the rejected ones, each in the
  order of the results.
\<close>

fun values_of :: "('v, 'e) settled list \<Rightarrow> 'v list" where
  "values_of [] = []"
| "values_of (Fulfilled v # rs) = v # values_of rs"
| "values_of (Rejected r # rs) = values_of rs"

fun reasons_of :: "('v, 'e) settled list \<Rightarrow> 'e list" where
  "reasons_of [] = []"
| "reasons_of (Fulfilled v # rs) = reasons_of rs"
| "reasons_of (Rejected r # rs) = r # reasons_of rs"

text \<open>
  A log of waits is sequential when no wait begins before every operation of every
  earlier window has settled.
\<close>

fun sequential :: "(int \<times> ('v, 'e) promise list) list \<Rightarrow> bool" where
  "sequential [] = True"
| "sequential ((t, w) # rest) =
     ((\<forall>(t', w') \<in> set rest. \<forall>p \<in> set w. settles_at p \<le> t') \<and> sequential rest)"

text \<open>
  The invariant of the loop at index \<open>i\<close>: the windows waited on so far are the first
  \<open>i\<close> operations, cut into non-empty windows of at most \<open>c\<close>; the waits are
  sequential, every operation waited on has settled, and the results hold exactly the
  outcomes of those operations.
\<close>

definition batch_inv ::
  "('v, 'e) promise list \<Rightarrow> int \<Rightarrow> int \<Rightarrow> int \<Rightarrow> ('v, 'e) exec \<Rightarrow> bool" where
  "batch_inv ps c now i ex \<longleftrightarrow>
     0 \<le> i \<and>
     concat (map snd (awaited ex)) = take (nat i) ps \<and>
     (\<forall>w \<in> set (awaited ex). snd w \<noteq> [] \<and> int (length (snd w)) \<le> c) \<and>
     sequential (awaited ex) \<and>
     (\<forall>w \<in> set (awaited ex). \<forall>p \<in> set (snd w). settles_at p \<le> clock ex) \<and>
     resolved (results ex) = values_of (map outcome (take (nat i) ps)) \<and>
     rejected (results ex) = reasons_of (map outcome (take (nat i) ps)) \<and>
     clock ex = fold max (map settles_at (take (nat i) ps)) now"

text \<open>
  The operations of the documentation's example (lines 44-49): they settle after 1000,
  2000, 1500 and 3000 ms; the second and the fourth reject. In \<open>early_rejection\<close> the
  second operation rejects while the first is still pending.
\<close>

definition example_promises :: "(string, string) promise list" where
  "example_promises =
     [\<lparr>settles_at = 1000, outcome = Fulfilled ''Resolved after 1000ms''\<rparr>,
      \<lparr>settles_at = 2000, outcome = Rejected ''Rejected after 2000ms''\<rparr>,
      \<lparr>settles_at = 1500, outcome = Fulfilled ''Resolved after 1500ms''\<rparr>,
      \<lparr>settles_at = 3000, outcome = Rejected ''Rejected after 3000ms''\<rparr>]"

definition early_rejection :: "(string, string) promise list" where
  "early_rejection =
     [\<lparr>settles_at = 2000, outcome = Fulfilled ''a''\<rparr>,
      \<lparr>settles_at = 1000, outcome = Rejected ''b''\<rparr>]"

section \<open>Argument values and their JSON serialization\<close>

text \<open>
  The arguments of a memoized call are JavaScript values. The model covers the values
  JSON describes, and \<^verbatim>\<open>undefined\<close>. A number is a safe integer, one of magnitude at
  most \<open>2\<^sup>5\<^sup>3 - 1\<close>: those are numbers of the platform, each written in plain decimal
  digits (the negative zero, which is written \<^verbatim>\<open>0\<close> too, is not told apart from zero). Strings are of 8-bit characters. An array or object carries its identity (the
  reference that \<^verbatim>\<open>===\<close> compares), and an object lists its own enumerable
  properties in the order the platform enumerates them. Other numbers, cyclic values,
  \<^verbatim>\<open>BigInt\<close>, functions, symbols and objects with a \<^verbatim>\<open>toJSON\<close> method are outside
  the model.
\<close>

typedef safe_integer = "{i :: int. - 9007199254740991 \<le> i \<and> i \<le> 9007199254740991}"
  morphisms number_value number
  by (rule exI[of _ 0]) simp

datatype js_value =
    JUndefined
  | JNull
  | JBool bool
  | JNum safe_integer
  | JStr string
  | JArr nat "js_value list"
  | JObj nat "(string \<times> js_value) list"

text \<open>Decimal rendering of a safe integer, as \<^verbatim>\<open>Number::toString\<close> gives it.\<close>

fun digits :: "nat \<Rightarrow> string" where
  "digits n =
     (if n < 10 then [''0123456789'' ! n]
      else digits (n div 10) @ [''0123456789'' ! (n mod 10)])"

declare digits.simps [simp del]

definition number_toString :: "safe_integer \<Rightarrow> string" where
  "number_toString n =
     (let i = number_value n
      in if i < 0 then CHR ''-'' # digits (nat (- i)) else digits (nat i))"

text \<open>
  \<^verbatim>\<open>QuoteJSONString\<close>: the double quote (code 0x22) and the backslash (0x5C) are
  escaped with a backslash, the control characters below 0x20 by their short escape
  or by \<^verbatim>\<open>\u00XX\<close>, and every other character stands for itself.
\<close>

definition escape_char :: "char \<Rightarrow> string" where
  "escape_char c =
     (if c = CHR 0x22 then [CHR 0x5C, CHR 0x22]
      else if c = CHR 0x5C then [CHR 0x5C, CHR 0x5C]
      else if c = CHR 0x08 then [CHR 0x5C, CHR ''b'']
      else if c = CHR 0x0C then [CHR 0x5C, CHR ''f'']
      else if c = CHR 0x0A then [CHR 0x5C, CHR ''n'']
      else if c = CHR 0x0D then [CHR 0x5C, CHR ''r'']
      else if c = CHR 0x09 then [CHR 0x5C, CHR ''t'']
      else if (of_char c :: nat) < 0x20
        then [CHR 0x5C, CHR ''u'', CHR ''0'', CHR ''0'',
              ''0123456789abcdef'' ! ((of_char c :: nat) div 16),
              ''0123456789abcdef'' ! ((of_char c :: nat) mod 16)]
      else [c])"

definition QuoteJSONString :: "string \<Rightarrow> string" where
  "QuoteJSONString s = CHR 0x22 # concat (map escape_char s) @ [CHR 0x22]"

fun commas :: "string list \<Rightarrow> string" where
  "commas [] = []"
| "commas [x] = x"
| "commas (x # y # ys) = x @ CHR '','' # commas (y # ys)"

text \<open>
  \<^verbatim>\<open>SerializeJSONProperty\<close>: \<open>None\<close> is the result \<^verbatim>\<open>undefined\<close>. An array element
  without a serialization is written \<^verbatim>\<open>null\<close>; an object property without one is
  left out. The identity of an array or object plays no part.
\<close>

fun SerializeJSONProperty :: "js_value \<Rightarrow> string option" where
  "SerializeJSONProperty JUndefined = None"
| "SerializeJSONProperty JNull = Some ''null''"
| "SerializeJSONProperty (JBool b) = Some (if b then ''true'' else ''false'')"
| "SerializeJSONProperty (JNum i) = Some (number_toString i)"
| "SerializeJSONProperty (JStr s) = Some (QuoteJSONString s)"
| "SerializeJSONProperty (JArr r xs) =
     Some (CHR ''['' #
           commas (map (\<lambda>x. case SerializeJSONProperty x of None \<Rightarrow> ''null'' | Some s \<Rightarrow> s) xs)
           @ '']'')"
| "SerializeJSONProperty (JObj r ps) =
     Some (CHR ''{'' #
           commas (concat (map (\<lambda>(k, v). case SerializeJSONProperty v of
                                              None \<Rightarrow> []
                                            | Some s \<Rightarrow> [QuoteJSONString k @ CHR '':'' # s]) ps))
           @ ''}'')"

text \<open>
  \<^verbatim>\<open>JSON.stringify(args)\<close> for the array of a call's arguments (a rest parameter, so
  always an array): the serialization of that array.
\<close>

definition JSON_stringify :: "js_value list \<Rightarrow> string" where
  "JSON_stringify args =
     CHR ''['' #
     commas (map (\<lambda>x. case SerializeJSONProperty x of None \<Rightarrow> ''null'' | Some s \<Rightarrow> s) args)
     @ '']''"

text \<open>
  \<^verbatim>\<open>deepEqual\<close> of \<^verbatim>\<open>src/data-manipulation.ts\<close> (lines 74-82) is true when
  \<^verbatim>\<open>deepStrictEqual\<close> of the platform's \<^verbatim>\<open>assert\<close> module does not throw: primitives
  are compared by value, arrays element by element, and objects by their sets of own
  enumerable properties, whatever the order of the properties and the identity of the
  objects.
\<close>

fun deepStrictEqual :: "js_value \<Rightarrow> js_value \<Rightarrow> bool" where
  "deepStrictEqual (JArr r xs) (JArr r' ys) =
     list_all2 deepStrictEqual xs ys"
| "deepStrictEqual (JObj r ps) (JObj r' qs) =
     (set (map fst ps) = set (map fst qs) \<and>
      (\<forall>(k, v) \<in> set ps. case map_of qs k of None \<Rightarrow> False | Some w \<Rightarrow> deepStrictEqual v w))"
| "deepStrictEqual a b = (a = b)"

definition deepEqual :: "js_value \<Rightarrow> js_value \<Rightarrow> bool" where
  "deepEqual a b = (if deepStrictEqual a b then True else False)"

text \<open>
  The value with the identities of its arrays and objects forgotten: two values agree
  on it when they have the same content, properties in the same order, and differ at
  most in which objects they are.
\<close>

fun forget_identity :: "js_value \<Rightarrow> js_value" where
  "forget_identity (JArr r xs) = JArr 0 (map forget_identity xs)"
| "forget_identity (JObj r ps) = JObj 0 (map (\<lambda>(k, v). (k, forget_identity v)) ps)"
| "forget_identity v = v"

section \<open>The memoizing cache wrapper\<close>

text \<open>
  What a call of the wrapped function hands back has the type
  \<^verbatim>\<open>Promise<R> | R\<close>: a direct value, or a promise of one. The same type is declared
  for the \<^verbatim>\<open>value\<close> of a cache entry (line 138).
\<close>

datatype ('r, 'e) maybe_promise = Direct 'r | Promised "('r, 'e) promise"

record ('r, 'e) entry =
  timestamp :: int
  entry_value :: "('r, 'e) maybe_promise"

text \<open>
  The wrapped function \<^verbatim>\<open>func\<close> may read and change state of its own, here
  \<open>'w\<close>, and may look at the time. Called with the arguments, its state and the
  instant of the call, it throws (\<open>Inl\<close>) or returns, and leaves a new state. It
  does not call back into the wrapper that memoizes it.
\<close>

type_synonym ('r, 'e, 'w) func =
  "js_value list \<Rightarrow> 'w \<Rightarrow> int \<Rightarrow> ('e + ('r, 'e) maybe_promise) \<times> 'w"

text \<open>
  \<^verbatim>\<open>await x\<close> at instant \<open>t\<close>, inside an async function: a direct value is there at
  once; a promise is waited for until it settles, and its rejection is thrown. An
  exception of the awaited call is thrown at once. The result is how the evaluation
  ends and when.
\<close>

fun await :: "('e + ('r, 'e) maybe_promise) \<Rightarrow> int \<Rightarrow> ('r, 'e) settled \<times> int" where
  "await (Inl e) t = (Rejected e, t)"
| "await (Inr (Direct v)) t = (Fulfilled v, t)"
| "await (Inr (Promised p)) t = (outcome p, max t (settles_at p))"

text \<open>
  The closure that \<^verbatim>\<open>asyncCache(func, ttl)\<close> creates, with its surroundings:
  \<open>func\<close>, the optional \<open>ttl\<close> in minutes and the \<open>cache\<close> map are the variables of
  the closure; \<open>date_now\<close> is what \<^verbatim>\<open>Date.now()\<close> reads, \<open>world\<close> the state of
  \<open>func\<close>. \<open>calls\<close> is the instrumentation of a test: every invocation of \<open>func\<close>
  by the wrapper, with its arguments and how awaiting it ended.
\<close>

record ('r, 'e, 'w) memo =
  func :: "('r, 'e, 'w) func"
  ttl :: "int option"
  cache :: "string \<rightharpoonup> ('r, 'e) entry"
  date_now :: int
  world :: 'w
  calls :: "(js_value list \<times> ('r, 'e) settled) list"

definition asyncCache ::
  "('r, 'e, 'w) func \<Rightarrow> int option \<Rightarrow> 'w \<Rightarrow> int \<Rightarrow> ('r, 'e, 'w) memo" where
  "asyncCache f t w now =
     \<lparr>func = f, ttl = t, cache = Map.empty, date_now = now, world = w, calls = []\<rparr>"

definition millisecondsPerMinute :: int where
  "millisecondsPerMinute = 60 * 1000"

text \<open>Lines 141-148; \<open>now\<close> is the \<^verbatim>\<open>Date.now()\<close> of line 145.\<close>

definition isEntryExpired :: "int option \<Rightarrow> int \<Rightarrow> int \<Rightarrow> bool" where
  "isEntryExpired t now ts =
     (case t of
        None \<Rightarrow> False
      | Some minutes \<Rightarrow>
          (let timeDifference = now - ts;
               ttlMilliseconds = minutes * millisecondsPerMinute
           in timeDifference > ttlMilliseconds))"

text \<open>
  Lines 158-160, reached on a miss: the wrapped function is called and awaited. When
  the await throws, the async function ends there, rejected. Otherwise the awaited
  result is stored with the \<^verbatim>\<open>Date.now()\<close> read after the await, and returned.
\<close>

definition recompute ::
  "('r, 'e, 'w) memo \<Rightarrow> js_value list \<Rightarrow> string \<Rightarrow> ('r, 'e) settled \<times> ('r, 'e, 'w) memo" where
  "recompute s args key =
     (let (returned, w) = func s args (world s) (date_now s);
          (awaited_result, t) = await returned (date_now s);
          s' = s\<lparr>world := w, date_now := t, calls := calls s @ [(args, awaited_result)]\<rparr>
      in case awaited_result of
           Rejected e \<Rightarrow> (Rejected e, s')
         | Fulfilled result \<Rightarrow>
             (Fulfilled result,
              s'\<lparr>cache := (cache s')(key \<mapsto> \<lparr>timestamp = date_now s', entry_value = Direct result\<rparr>)\<rparr>))"

text \<open>
  \<^verbatim>\<open>memoizedFunc(...args)\<close>, lines 150-161, run to completion: how the promise it
  returns settles, and the state then. On a hit the async function returns
  \<^verbatim>\<open>entry.value\<close>, so its promise takes the value, or follows the promise, stored
  there.
\<close>

definition memoizedFunc ::
  "('r, 'e, 'w) memo \<Rightarrow> js_value list \<Rightarrow> ('r, 'e) settled \<times> ('r, 'e, 'w) memo" where
  "memoizedFunc s args =
     (let key = (if length args = 0 then ''genericKey'' else JSON_stringify args)
      in case cache s key of
           None \<Rightarrow> recompute s args key
         | Some entry \<Rightarrow>
             if \<not> isEntryExpired (ttl s) (date_now s) (timestamp entry)
             then (let (r, t) = await (Inr (entry_value entry)) (date_now s)
                   in (r, s\<lparr>date_now := t\<rparr>))
             else recompute s args key)"

text \<open>Lines 163-166 and 168-170.\<close>

definition deleteCache :: "('r, 'e, 'w) memo \<Rightarrow> js_value list \<Rightarrow> ('r, 'e, 'w) memo" where
  "deleteCache s args =
     (let cacheKey = (if length args = 0 then ''genericKey'' else JSON_stringify args)
      in s\<lparr>cache := (cache s)(cacheKey := None)\<rparr>)"

definition clearCache :: "('r, 'e, 'w) memo \<Rightarrow> ('r, 'e, 'w) memo" where
  "clearCache s = s\<lparr>cache := Map.empty\<rparr>"

subsection \<open>What the wrapper is measured against\<close>

text \<open>The key that a call with the arguments \<open>args\<close> looks up.\<close>

definition key_of :: "js_value list \<Rightarrow> string" where
  "key_of args = (if args = [] then ''genericKey'' else JSON_stringify args)"

text \<open>
  The lookup of line 154 succeeds: there is an entry under the key and it is not
  expired.
\<close>

definition hit :: "('r, 'e, 'w) memo \<Rightarrow> js_value list \<Rightarrow> bool" where
  "hit s args =
     (case cache s (key_of args) of
        None \<Rightarrow> False
      | Some entry \<Rightarrow> \<not> isEntryExpired (ttl s) (date_now s) (timestamp entry))"

text \<open>How calling and awaiting the wrapped function would end now, and when.\<close>

definition invoke_func :: "('r, 'e, 'w) memo \<Rightarrow> js_value list \<Rightarrow> ('r, 'e) settled \<times> int" where
  "invoke_func s args = await (fst (func s args (world s) (date_now s))) (date_now s)"

text \<open>
  A call of the memoized function is not atomic: it runs to its \<^verbatim>\<open>await\<close> (line 158),
  is suspended there, and resumes once what it awaits has settled; anything may
  happen in between, other calls included. \<open>begin_call\<close> is the first part: the lookup
  and, on a miss, the invocation of the wrapped function. A call that hits, or whose
  invocation throws, is over at once; otherwise it is suspended with its arguments,
  its key and what it awaits.
\<close>

type_synonym ('r, 'e) suspended = "js_value list \<times> string \<times> ('r, 'e) maybe_promise"

definition invoke_and_suspend ::
  "('r, 'e, 'w) memo \<Rightarrow> js_value list \<Rightarrow> string \<Rightarrow>
     ('r, 'e, 'w) memo \<times> ('r, 'e) suspended option" where
  "invoke_and_suspend s args key =
     (let (returned, w) = func s args (world s) (date_now s)
      in case returned of
           Inl e \<Rightarrow> (s\<lparr>world := w, calls := calls s @ [(args, Rejected e)]\<rparr>, None)
         | Inr x \<Rightarrow> (s\<lparr>world := w\<rparr>, Some (args, key, x)))"

definition begin_call ::
  "('r, 'e, 'w) memo \<Rightarrow> js_value list \<Rightarrow> ('r, 'e, 'w) memo \<times> ('r, 'e) suspended option" where
  "begin_call s args =
     (let key = (if length args = 0 then ''genericKey'' else JSON_stringify args)
      in case cache s key of
           None \<Rightarrow> invoke_and_suspend s args key
         | Some entry \<Rightarrow>
             if \<not> isEntryExpired (ttl s) (date_now s) (timestamp entry)
             then (s, None)
             else invoke_and_suspend s args key)"

text \<open>
  What a suspended call awaits has settled by the instant \<open>t\<close>; then the call can
  resume: a rejection is thrown, a value is stored with the \<^verbatim>\<open>Date.now()\<close> of the
  resumption (lines 159-160).
\<close>

fun settled_by :: "('r, 'e) maybe_promise \<Rightarrow> int \<Rightarrow> bool" where
  "settled_by (Direct v) t = True"
| "settled_by (Promised p) t = (settles_at p \<le> t)"

definition resume :: "('r, 'e, 'w) memo \<Rightarrow> ('r, 'e) suspended \<Rightarrow> ('r, 'e, 'w) memo" where
  "resume s call =
     (case call of (args, key, x) \<Rightarrow>
        (case fst (await (Inr x) (date_now s)) of
           Rejected e \<Rightarrow> s\<lparr>calls := calls s @ [(args, Rejected e)]\<rparr>
         | Fulfilled result \<Rightarrow>
             s\<lparr>calls := calls s @ [(args, Fulfilled result)],
               cache := (cache s)(key \<mapsto> \<lparr>timestamp = date_now s, entry_value = Direct result\<rparr>)\<rparr>))"

text \<open>
  A wrapper in use: its state and the calls suspended at their \<^verbatim>\<open>await\<close>. The events
  are the start of a call of the memoized function, the resumption of a suspended
  call (by its position among the suspended ones), \<^verbatim>\<open>deleteCache\<close>, \<^verbatim>\<open>clearCache\<close>
  and the clock moving. They interleave freely.
\<close>

record ('r, 'e, 'w) system =
  wrapper :: "('r, 'e, 'w) memo"
  suspended_calls :: "('r, 'e) suspended list"

datatype event =
  Call "js_value list" | Resume nat | Delete "js_value list" | Clear | Tick int

fun step :: "('r, 'e, 'w) system \<Rightarrow> event \<Rightarrow> ('r, 'e, 'w) system" where
  "step c (Call args) =
     (let (s, susp) = begin_call (wrapper c) args
      in \<lparr>wrapper = s,
          suspended_calls = suspended_calls c @ (case susp of None \<Rightarrow> [] | Some k \<Rightarrow> [k])\<rparr>)"
| "step c (Resume i) =
     (if i < length (suspended_calls c) \<and>
         settled_by (snd (snd (suspended_calls c ! i))) (date_now (wrapper c))
      then \<lparr>wrapper = resume (wrapper c) (suspended_calls c ! i),
            suspended_calls = take i (suspended_calls c) @ drop (Suc i) (suspended_calls c)\<rparr>
      else c)"
| "step c (Delete args) = c\<lparr>wrapper := deleteCache (wrapper c) args\<rparr>"
| "step c Clear = c\<lparr>wrapper := clearCache (wrapper c)\<rparr>"
| "step c (Tick t) = c\<lparr>wrapper := (wrapper c)\<lparr>date_now := t\<rparr>\<rparr>"

definition run :: "('r, 'e, 'w) system \<Rightarrow> event list \<Rightarrow> ('r, 'e, 'w) system" where
  "run c events = foldl step c events"

definition fresh_system ::
  "('r, 'e, 'w) func \<Rightarrow> int option \<Rightarrow> 'w \<Rightarrow> int \<Rightarrow> ('r, 'e, 'w) system" where
  "fresh_system f t w now = \<lparr>wrapper = asyncCache f t w now, suspended_calls = []\<rparr>"

text \<open>
  Every entry of the cache holds a direct value that an earlier awaited call of
  \<open>func\<close>, with arguments of that key, was fulfilled with; and every suspended call
  carries the key of its arguments.
\<close>

definition settled_entries :: "('r, 'e, 'w) memo \<Rightarrow> bool" where
  "settled_entries s \<longleftrightarrow>
     (\<forall>k entry. cache s k = Some entry \<longrightarrow>
        (\<exists>args v. (args, Fulfilled v) \<in> set (calls s) \<and> key_of args = k \<and>
                  entry_value entry = Direct v))"

definition keyed :: "('r, 'e) suspended list \<Rightarrow> bool" where
  "keyed ks \<longleftrightarrow> (\<forall>(args, key, x) \<in> set ks. key = key_of args)"

subsection \<open>An example wrapper\<close>

text \<open>
  A wrapped function that counts its calls in its own state: the call numbered 0
  throws, every later one returns a promise fulfilled 250 ms later. The example
  wrapper memoizes it with a TTL of one minute, created at time 0 with call number 1;
  \<open>example_failing\<close> is created with call number 0, at time 1000;
  \<open>example_cached\<close> holds two entries.
\<close>

definition example_func :: "(nat, string, nat) func" where
  "example_func args n t =
     (if n = 0 then Inl ''unavailable''
      else Inr (Promised \<lparr>settles_at = t + 250, outcome = Fulfilled (length args + n)\<rparr>),
      n + 1)"

definition example_memo :: "(nat, string, nat) memo" where
  "example_memo = asyncCache example_func (Some 1) 1 0"

definition example_failing :: "(nat, string, nat) memo" where
  "example_failing = asyncCache example_func (Some 1) 0 1000"

definition example_cached :: "(nat, string, nat) memo" where
  "example_cached = example_memo
     \<lparr>cache := [key_of [JNum (number 7)] \<mapsto> \<lparr>timestamp = 0, entry_value = Direct 5\<rparr>,
                key_of [JStr ''x''] \<mapsto> \<lparr>timestamp = 10, entry_value = Direct 6\<rparr>]\<rparr>"

lemma values_of_append: "values_of (xs @ ys) = values_of xs @ values_of ys"
  by (induction xs rule: values_of.induct) simp_all

lemma reasons_of_append: "reasons_of (xs @ ys) = reasons_of xs @ reasons_of ys"
  by (induction xs rule: reasons_of.induct) simp_all

lemma length_values_reasons: "length (values_of rs) + length (reasons_of rs) = length rs"
  by (induction rs rule: values_of.induct) simp_all

lemma push_results_resolved: "resolved (push_results rs fr) = resolved fr @ values_of rs"
  by (induction rs fr rule: push_results.induct) simp_all

lemma push_results_rejected: "rejected (push_results rs fr) = rejected fr @ reasons_of rs"
  by (induction rs fr rule: push_results.induct) simp_all

lemma fold_max_ge: "t \<le> fold max xs (t::int)"
proof (induction xs arbitrary: t)
  case Nil then show ?case by simp
next
  case (Cons a xs)
  have "t \<le> max a t" by simp
  also have "\<dots> \<le> fold max xs (max a t)" by (rule Cons.IH)
  finally show ?case by simp
qed

lemma fold_max_mem: "x \<in> set xs \<Longrightarrow> x \<le> fold max xs (t::int)"
proof (induction xs arbitrary: t)
  case Nil then show ?case by simp
next
  case (Cons a xs)
  show ?case
  proof (cases "x = a")
    case True
    have "a \<le> max a t" by simp
    also have "\<dots> \<le> fold max xs (max a t)" by (rule fold_max_ge)
    finally show ?thesis using True by simp
  next
    case False
    with Cons show ?thesis by simp
  qed
qed

lemma sequential_snoc:
  "sequential (ws @ [(t, w)]) = (sequential ws \<and> (\<forall>(t', w') \<in> set ws. \<forall>p \<in> set w'. settles_at p \<le> t))"
  by (induction ws) auto

text \<open>
  By positions: in a sequential log, every operation of the window at position \<open>i\<close>
  has settled when the wait on the window at a later position \<open>j\<close> begins.
\<close>

lemma sequential_nth:
  assumes "sequential ws" and "i < j" and "j < length ws" and "p \<in> set (snd (ws ! i))"
  shows "settles_at p \<le> fst (ws ! j)"
  using assms
proof (induction ws arbitrary: i j)
  case Nil
  then show ?case by simp
next
  case (Cons w ws)
  obtain t ps where w: "w = (t, ps)" by (cases w)
  from Cons.prems(2) obtain j' where j: "j = Suc j'" by (cases j) auto
  with Cons.prems(3) have j': "j' < length ws" by simp
  show ?case
  proof (cases i)
    case 0
    with Cons.prems(4) w have "p \<in> set ps" by simp
    moreover from j' have "ws ! j' \<in> set ws" by simp
    ultimately have "settles_at p \<le> fst (ws ! j')"
      using Cons.prems(1) w by (cases "ws ! j'") auto
    with j show ?thesis by simp
  next
    case (Suc i')
    with Cons.prems j w have "sequential ws" "i' < j'" "p \<in> set (snd (ws ! i'))"
      by simp_all
    from Cons.IH[OF this(1,2) j' this(3)] j show ?thesis by simp
  qed
qed

lemma slice_window:
  "0 \<le> i \<Longrightarrow> 0 < c \<Longrightarrow> slice xs i (i + c) = take (nat c) (drop (nat i) xs)"
proof -
  assume i: "0 \<le> i" and c: "0 < c"
  show ?thesis
  proof (cases "i \<le> int (length xs)")
    case True
    note le = this
    show ?thesis
    proof (cases "i + c \<le> int (length xs)")
      case True
      have "nat (i + c - i) = nat c" by simp
      with i c le True show ?thesis by (simp add: slice_def Let_def min_def)
    next
      case False
      then have "length (drop (nat i) xs) \<le> nat c" using i c le by simp
      with i c le False show ?thesis by (simp add: slice_def Let_def min_def)
    qed
  next
    case False
    with i c show ?thesis by (simp add: slice_def Let_def min_def)
  qed
qed

text \<open>
  A total-correctness rule for the loop with a positive step: an invariant that holds
  at the start and is kept by the body holds when the loop exits, and the loop does
  exit.
\<close>

lemma batch_loop_rule:
  assumes c: "0 < c" and I0: "I index ex"
    and step: "\<And>i e. I i e \<Longrightarrow> i < int (length ps) \<Longrightarrow> I (i + c) (await_window (slice ps i (i + c)) e)"
  shows "\<exists>ex'. batch_loop ps c index ex = Some ex' \<and> (\<exists>i. int (length ps) \<le> i \<and> I i ex')"
  using I0
proof (induction "nat (int (length ps) - index)" arbitrary: index ex rule: less_induct)
  case less
  show ?case
  proof (cases "index < int (length ps)")
    case True
    have "nat (int (length ps) - (index + c)) < nat (int (length ps) - index)"
      using c True by simp
    from less(1)[OF this step[OF less(2) True]] show ?thesis
      by (subst batch_loop.simps) (simp add: True)
  next
    case False
    then show ?thesis using less(2)
      by (subst batch_loop.simps) (auto intro!: exI[of _ index])
  qed
qed

lemma await_window_results:
  "results (await_window w e) = push_results (map outcome w) (results e)"
  by (simp add: await_window_def allSettled_def)

lemma await_window_clock:
  "clock (await_window w e) = fold max (map settles_at w) (clock e)"
  by (simp add: await_window_def allSettled_def)

lemma await_window_awaited:
  "awaited (await_window w e) = awaited e @ [(clock e, w)]"
  by (simp add: await_window_def allSettled_def)

lemma batch_inv_init:
  "batch_inv ps c now 0 \<lparr>results = \<lparr>resolved = [], rejected = []\<rparr>, clock = now, awaited = []\<rparr>"
  by (simp add: batch_inv_def)

lemma batch_inv_step:
  assumes c: "0 < c" and inv: "batch_inv ps c now i e" and i: "i < int (length ps)"
  shows "batch_inv ps c now (i + c) (await_window (slice ps i (i + c)) e)"
proof -
  define w where "w = take (nat c) (drop (nat i) ps)"
  from inv have i0: "0 \<le> i" by (simp add: batch_inv_def)
  have sl: "slice ps i (i + c) = w"
    using i0 c by (simp add: slice_window w_def)
  have tk: "take (nat (i + c)) ps = take (nat i) ps @ w"
    using i0 c by (simp add: w_def nat_add_distrib take_add)
  have ne: "w \<noteq> []" using i i0 c by (simp add: w_def)
  have len: "int (length w) \<le> c" using c by (simp add: w_def)
  have 1: "0 \<le> i + c" using i0 c by simp
  have 2: "concat (map snd (awaited (await_window w e))) = take (nat (i + c)) ps"
    using inv by (simp add: await_window_awaited tk batch_inv_def)
  have 3: "\<forall>x \<in> set (awaited (await_window w e)). snd x \<noteq> [] \<and> int (length (snd x)) \<le> c"
    using inv ne len by (simp add: await_window_awaited batch_inv_def)
  have 4: "sequential (awaited (await_window w e))"
    using inv by (auto simp add: await_window_awaited sequential_snoc batch_inv_def)
  have ge: "clock e \<le> clock (await_window w e)"
    by (simp add: await_window_clock fold_max_ge)
  have 5: "\<forall>x \<in> set (awaited (await_window w e)). \<forall>p \<in> set (snd x). settles_at p \<le> clock (await_window w e)"
  proof (intro ballI)
    fix x p assume x: "x \<in> set (awaited (await_window w e))" and p: "p \<in> set (snd x)"
    from x have "x \<in> set (awaited e) \<or> x = (clock e, w)" by (auto simp: await_window_awaited)
    then show "settles_at p \<le> clock (await_window w e)"
    proof
      assume "x \<in> set (awaited e)"
      with inv p have "settles_at p \<le> clock e" unfolding batch_inv_def by blast
      with ge show ?thesis by simp
    next
      assume "x = (clock e, w)"
      with p have "settles_at p \<in> set (map settles_at w)" by simp
      then show ?thesis unfolding await_window_clock by (rule fold_max_mem)
    qed
  qed
  have 6: "resolved (results (await_window w e)) = values_of (map outcome (take (nat (i + c)) ps))"
    using inv by (simp add: await_window_results push_results_resolved tk values_of_append batch_inv_def)
  have 7: "rejected (results (await_window w e)) = reasons_of (map outcome (take (nat (i + c)) ps))"
    using inv by (simp add: await_window_results push_results_rejected tk reasons_of_append batch_inv_def)
  have 8: "clock (await_window w e) = fold max (map settles_at (take (nat (i + c)) ps)) now"
    using inv by (simp add: await_window_clock tk batch_inv_def)
  show ?thesis unfolding sl batch_inv_def using 1 2 3 4 5 6 7 8 by blast
qed

lemma batch_loop_positive:
  assumes c: "0 < c"
  shows "\<exists>ex. batch_loop ps c 0 \<lparr>results = \<lparr>resolved = [], rejected = []\<rparr>, clock = now, awaited = []\<rparr> = Some ex
           \<and> batch_inv ps c now (int (length ps)) ex"
proof -
  from batch_loop_rule[where I = "batch_inv ps c now", OF c batch_inv_init batch_inv_step[OF c]]
  obtain ex i where ex: "batch_loop ps c 0 \<lparr>results = \<lparr>resolved = [], rejected = []\<rparr>, clock = now, awaited = []\<rparr> = Some ex"
    and i: "int (length ps) \<le> i" and inv: "batch_inv ps c now i ex"
    by blast
  from i have "take (nat i) ps = ps" by simp
  moreover have "0 \<le> int (length ps)" "nat (int (length ps)) = length ps" by simp_all
  ultimately have "batch_inv ps c now (int (length ps)) ex"
    using inv unfolding batch_inv_def by (elim conjE) (intro conjI; simp)
  with ex show ?thesis by blast
qed

lemma batch_exec_zero:
  "batch_exec ps 0 now =
     Some \<lparr>results = push_results (map outcome ps) \<lparr>resolved = [], rejected = []\<rparr>,
           clock = fold max (map settles_at ps) now, awaited = [(now, ps)]\<rparr>"
  by (simp add: batch_exec_def await_window_def allSettled_def)

lemma batch_exec_positive:
  assumes c: "0 < c"
  shows "\<exists>ex. batch_exec ps c now = Some ex \<and> batch_inv ps c now (int (length ps)) ex"
  using batch_loop_positive[OF c, of ps now] c by (simp add: batch_exec_def)

lemma batch_exec_empty: "batch_exec [] c now =
   Some \<lparr>results = \<lparr>resolved = [], rejected = []\<rparr>, clock = now,
         awaited = (if c = 0 then [(now, [])] else [])\<rparr>"
  by (simp add: batch_exec_def await_window_def allSettled_def batch_loop.simps)

lemma batch_exec_single_window:
  assumes ne: "ps \<noteq> []" and c: "int (length ps) \<le> c"
  shows "batch_exec ps c now = batch_exec ps 0 now"
proof -
  have pos: "0 < c" using ne c by (cases ps) auto
  have sl: "slice ps 0 (0 + c) = ps" using c pos slice_window[of 0 c ps] by simp
  let ?ex = "\<lparr>results = \<lparr>resolved = [], rejected = []\<rparr>, clock = now, awaited = []\<rparr> :: ('a, 'b) exec"
  have "batch_loop ps c 0 ?ex = batch_loop ps c (0 + c) (await_window (slice ps 0 (0 + c)) ?ex)"
    using ne by (subst batch_loop.simps) simp
  also have "\<dots> = Some (await_window ps ?ex)"
    unfolding sl using c by (subst batch_loop.simps) simp
  finally show ?thesis using pos by (simp add: batch_exec_def)
qed

text \<open>
  With a negative step the loop can only return if it never ran.
\<close>

lemma batch_loop_negative:
  assumes run: "batch_loop ps c i ex = Some y" and neg: "c < 0"
  shows "int (length ps) \<le> i"
proof -
  have "c < 0 \<longrightarrow> int (length ps) \<le> i"
  proof (rule batch_loop.raw_induct[where P = "\<lambda>ps c i ex y. c < 0 \<longrightarrow> int (length ps) \<le> i", OF _ run])
    fix f :: "('a, 'b) promise list \<Rightarrow> int \<Rightarrow> int \<Rightarrow> ('a, 'b) exec \<Rightarrow> ('a, 'b) exec option"
    fix ps c i ex y
    assume IH: "\<And>ps c i ex y. f ps c i ex = Some y \<Longrightarrow> c < 0 \<longrightarrow> int (length ps) \<le> i"
      and body: "(if i < int (length ps)
                  then f ps c (i + c) (await_window (slice ps i (i + c)) ex)
                  else Some ex) = Some y"
    show "c < 0 \<longrightarrow> int (length ps) \<le> i"
    proof (cases "i < int (length ps)")
      case True
      with body have "f ps c (i + c) (await_window (slice ps i (i + c)) ex) = Some y" by simp
      from IH[OF this] True show ?thesis by auto
    next
      case False
      then show ?thesis by simp
    qed
  qed
  with neg show ?thesis by simp
qed

lemma batch_exec_negative_diverges:
  assumes "c < 0" and "ps \<noteq> []"
  shows "batch_exec ps c now = None"
proof (rule ccontr)
  assume "batch_exec ps c now \<noteq> None"
  then obtain y where "batch_loop ps c 0 \<lparr>results = \<lparr>resolved = [], rejected = []\<rparr>, clock = now, awaited = []\<rparr> = Some y"
    using assms(1) by (auto simp: batch_exec_def)
  from batch_loop_negative[OF this assms(1)] assms(2) show False by simp
qed

text \<open>
  Claim C8, against the code. The claim: a call of the executor with a negative chunk
  size fails fast, terminating with a failure (and so does the construction of the
  cache wrapper with a TTL that is not a number, an input that the parameter's type
  \<^verbatim>\<open>ttl?: number\<close> does not admit). The code guards the chunk size 0, with which
  the loop of line 86 would not advance, by the branch of lines 74-84, and misses the
  negative sizes: on the example operations with chunk size \<open>-1\<close> the loop never
  exits and the call yields nothing, neither a result nor a failure, while with chunk
  size 0 it returns.
\<close>

theorem batch_negative_chunk_hangs:
  "batch_exec example_promises (- 1) 0 = None \<and>
   batchPromiseAllSettled example_promises (- 1) 0 = None \<and>
   batch_exec example_promises 0 0 \<noteq> None"
proof -
  have "example_promises \<noteq> []" by (simp add: example_promises_def)
  then have hang: "batch_exec example_promises (- 1) 0 = None"
    by (intro batch_exec_negative_diverges) simp_all
  then have "batchPromiseAllSettled example_promises (- 1) 0 = None"
    by (simp add: batchPromiseAllSettled_def)
  moreover have "batch_exec example_promises 0 0 \<noteq> None"
    by (simp add: batch_exec_zero)
  ultimately show ?thesis using hang by simp
qed

text \<open>
  The end-to-end scenario of the documentation (line 51): chunk size 2 over the four
  example operations.
\<close>

lemma example_chunk_2:
  "batch_exec example_promises 2 0 =
     Some \<lparr>results = \<lparr>resolved = [''Resolved after 1000ms'', ''Resolved after 1500ms''],
                       rejected = [''Rejected after 2000ms'', ''Rejected after 3000ms'']\<rparr>,
           clock = 3000,
           awaited = [(0, take 2 example_promises), (2000, drop 2 example_promises)]\<rparr>"
  by (simp add: batch_exec_def batch_loop.simps example_promises_def await_window_def
      allSettled_def slice_def)

lemma example_chunk_2_result:
  "batchPromiseAllSettled example_promises 2 0 =
     Some \<lparr>settles_at = 3000,
           outcome = Fulfilled
             \<lparr>resolved = [''Resolved after 1000ms'', ''Resolved after 1500ms''],
              rejected = [''Rejected after 2000ms'', ''Rejected after 3000ms'']\<rparr>\<rparr>"
  by (simp add: batchPromiseAllSettled_def example_chunk_2 unhandled_rejection_def
      rejected_before_def)
     (simp add: example_promises_def)

text \<open>
  Claim C4. For every sequence of operations and every \<open>chunkSize > 0\<close> the call
  returns, and the windows it waited on are consecutive pieces of the input in the
  input's order (their concatenation is the input), each non-empty and of at most
  \<open>chunkSize\<close> operations. The waits are sequential: the wait on a window begins only
  when every operation of every earlier window has settled. A window is waited on by a
  single \<^verbatim>\<open>Promise.allSettled\<close>, so the executor is done at the instant the last
  operation settles (or at once, if all had settled before the call).
\<close>

theorem batch_windows:
  assumes "0 < chunkSize"
  shows "\<exists>ex. batch_exec promises chunkSize now = Some ex \<and>
           concat (map snd (awaited ex)) = promises \<and>
           (\<forall>w \<in> set (awaited ex). snd w \<noteq> [] \<and> int (length (snd w)) \<le> chunkSize) \<and>
           sequential (awaited ex) \<and>
           clock ex = fold max (map settles_at promises) now"
proof -
  from batch_exec_positive[OF assms, of promises now]
  obtain ex where ex: "batch_exec promises chunkSize now = Some ex"
    and inv: "batch_inv promises chunkSize now (int (length promises)) ex"
    by blast
  from inv have "concat (map snd (awaited ex)) = promises"
    and "\<forall>w \<in> set (awaited ex). snd w \<noteq> [] \<and> int (length (snd w)) \<le> chunkSize"
    and "sequential (awaited ex)"
    and "clock ex = fold max (map settles_at promises) now"
    by (simp_all add: batch_inv_def)
  with ex show ?thesis by blast
qed

theorem batch_windows_witness:
  "(0::int) < 2 \<and>
   (\<exists>ex. batch_exec example_promises 2 0 = Some ex \<and>
      concat (map snd (awaited ex)) = example_promises \<and>
      (\<forall>w \<in> set (awaited ex). snd w \<noteq> [] \<and> int (length (snd w)) \<le> 2) \<and>
      sequential (awaited ex) \<and>
      clock ex = 3000)"
  using batch_windows[of 2 example_promises 0] by (simp add: example_promises_def)

text \<open>
  While the process lives, the body collects every outcome: for a non-negative chunk
  size the loop exits with the values of the fulfilled operations in \<open>resolved\<close> and
  the reasons of the rejected ones in \<open>rejected\<close>.
\<close>

lemma batch_exec_captures:
  assumes nonneg: "0 \<le> chunkSize"
  shows "\<exists>ex. batch_exec promises chunkSize now = Some ex \<and>
          resolved (results ex) = values_of (map outcome promises) \<and>
          rejected (results ex) = reasons_of (map outcome promises)"
proof (cases "chunkSize = 0")
  case True
  then show ?thesis
    by (simp add: batch_exec_zero push_results_resolved push_results_rejected)
next
  case False
  with nonneg have "0 < chunkSize" by simp
  from batch_exec_positive[OF this, of promises now] show ?thesis
    by (auto simp: batch_inv_def)
qed

text \<open>
  With \<open>chunkSize = 0\<close> every operation gets its handler at the call, so no rejection
  is unhandled and the call is fulfilled with every outcome, for every input.
\<close>

lemma batch_zero_captures:
  "batchPromiseAllSettled promises 0 now =
     Some \<lparr>settles_at = fold max (map settles_at promises) now,
           outcome = Fulfilled \<lparr>resolved = values_of (map outcome promises),
                                 rejected = reasons_of (map outcome promises)\<rparr>\<rparr>"
proof -
  have "results (the (batch_exec promises 0 now)) =
          \<lparr>resolved = values_of (map outcome promises),
            rejected = reasons_of (map outcome promises)\<rparr>"
    by (simp add: batch_exec_zero push_results_resolved push_results_rejected)
  then show ?thesis
    by (simp add: batchPromiseAllSettled_def batch_exec_zero unhandled_rejection_def)
qed

text \<open>
  For a non-negative chunk size the call yields nothing exactly when a rejection goes
  unhandled; otherwise it is fulfilled with every outcome.
\<close>

lemma batch_result_nonneg:
  assumes "0 \<le> chunkSize"
  shows "\<exists>ex. batch_exec promises chunkSize now = Some ex \<and>
           batchPromiseAllSettled promises chunkSize now =
             (if unhandled_rejection now (awaited ex) then None
              else Some \<lparr>settles_at = clock ex,
                         outcome = Fulfilled \<lparr>resolved = values_of (map outcome promises),
                                               rejected = reasons_of (map outcome promises)\<rparr>\<rparr>)"
proof -
  from batch_exec_captures[OF assms, of promises now]
  obtain ex where ex: "batch_exec promises chunkSize now = Some ex"
    and res: "resolved (results ex) = values_of (map outcome promises)"
    and rej: "rejected (results ex) = reasons_of (map outcome promises)"
    by blast
  from res rej have "results ex = \<lparr>resolved = values_of (map outcome promises),
                                   rejected = reasons_of (map outcome promises)\<rparr>"
    by simp
  with ex show ?thesis by (simp add: batchPromiseAllSettled_def)
qed

text \<open>
  Claim C5, against the code. The claim: for every sequence of operations and every
  non-negative chunk size the executor never fails as a whole and captures every
  outcome, so that the lengths of \<open>resolved\<close> and \<open>rejected\<close> add up to the number of
  operations. The code misses it where an operation of a later window rejects before
  the wait on its window begins. On \<open>early_rejection\<close> with chunk size 1, called at
  time 0, the second operation would get its handler at 2000 and rejects at 1000:
  the rejection is unhandled and the call yields nothing. With chunk size 0 the same
  operations give both outcomes.
\<close>

theorem batch_early_rejection_unhandled:
  "map_option awaited (batch_exec early_rejection 1 0) =
     Some [(0, take 1 early_rejection), (2000, drop 1 early_rejection)] \<and>
   unhandled_rejection 0 [(0, take 1 early_rejection), (2000, drop 1 early_rejection)] \<and>
   batchPromiseAllSettled early_rejection 1 0 = None \<and>
   batchPromiseAllSettled early_rejection 0 0 =
     Some \<lparr>settles_at = 2000,
           outcome = Fulfilled \<lparr>resolved = [''a''], rejected = [''b'']\<rparr>\<rparr>"
proof -
  have run: "batch_exec early_rejection 1 0 =
     Some \<lparr>results = \<lparr>resolved = [''a''], rejected = [''b'']\<rparr>, clock = 2000,
           awaited = [(0, take 1 early_rejection), (2000, drop 1 early_rejection)]\<rparr>"
    by (simp add: batch_exec_def batch_loop.simps early_rejection_def await_window_def
        allSettled_def slice_def)
  have unh: "unhandled_rejection 0 [(0, take 1 early_rejection), (2000, drop 1 early_rejection)]"
    by (simp add: unhandled_rejection_def rejected_before_def early_rejection_def)
  have one: "batchPromiseAllSettled early_rejection 1 0 = None"
    using unh by (simp add: batchPromiseAllSettled_def run)
  have zero: "batchPromiseAllSettled early_rejection 0 0 =
     Some \<lparr>settles_at = 2000,
           outcome = Fulfilled \<lparr>resolved = [''a''], rejected = [''b'']\<rparr>\<rparr>"
    by (simp add: batch_zero_captures early_rejection_def)
  from run unh one zero show ?thesis by simp
qed

text \<open>
  Claim C7. When \<open>chunkSize\<close> is at least the length of the sequence, the promise
  returned is the one returned for \<open>chunkSize = 0\<close>. With \<open>chunkSize = 0\<close> the whole
  sequence is one window, waited on by one \<^verbatim>\<open>Promise.allSettled\<close> and done when
  its last operation settles; on a non-empty sequence the large chunk size performs
  exactly that wait (on the empty sequence it performs none).
\<close>

theorem batch_large_chunk_single_window:
  assumes "int (length promises) \<le> chunkSize"
  shows "batchPromiseAllSettled promises chunkSize now = batchPromiseAllSettled promises 0 now \<and>
         (promises \<noteq> [] \<longrightarrow> batch_exec promises chunkSize now = batch_exec promises 0 now) \<and>
         (\<exists>ex. batch_exec promises 0 now = Some ex \<and> awaited ex = [(now, promises)] \<and>
               clock ex = fold max (map settles_at promises) now)"
proof (intro conjI impI)
  show "batchPromiseAllSettled promises chunkSize now = batchPromiseAllSettled promises 0 now"
  proof (cases "promises = []")
    case True
    then show ?thesis
      by (simp add: batchPromiseAllSettled_def batch_exec_empty unhandled_rejection_def)
  next
    case False
    from batch_exec_single_window[OF False assms] show ?thesis
      by (simp add: batchPromiseAllSettled_def)
  qed
next
  assume "promises \<noteq> []"
  from batch_exec_single_window[OF this assms]
  show "batch_exec promises chunkSize now = batch_exec promises 0 now" .
next
  show "\<exists>ex. batch_exec promises 0 now = Some ex \<and> awaited ex = [(now, promises)] \<and>
               clock ex = fold max (map settles_at promises) now"
    by (simp add: batch_exec_zero)
qed

theorem batch_large_chunk_single_window_witness:
  "int (length example_promises) \<le> 7 \<and>
   batchPromiseAllSettled example_promises 7 0 = batchPromiseAllSettled example_promises 0 0 \<and>
   batch_exec example_promises 7 0 = batch_exec example_promises 0 0"
  using batch_large_chunk_single_window[of example_promises 7 0]
  by (simp add: example_promises_def)

section \<open>The cache wrapper: lookup, expiry, failure and deletion\<close>

lemma key_of_length:
  "(if length args = 0 then ''genericKey'' else JSON_stringify args) = key_of args"
  by (simp add: key_of_def)

lemma memoizedFunc_hit:
  assumes "cache s (key_of args) = Some entry"
    and "\<not> isEntryExpired (ttl s) (date_now s) (timestamp entry)"
  shows "memoizedFunc s args =
           (fst (await (Inr (entry_value entry)) (date_now s)),
            s\<lparr>date_now := snd (await (Inr (entry_value entry)) (date_now s))\<rparr>)"
  using assms unfolding memoizedFunc_def key_of_length
  by (simp add: case_prod_beta)

lemma memoizedFunc_miss:
  assumes "\<not> hit s args"
  shows "memoizedFunc s args = recompute s args (key_of args)"
  using assms unfolding memoizedFunc_def key_of_length hit_def
  by (simp split: option.splits)

lemma recompute_fulfilled:
  assumes "invoke_func s args = (Fulfilled v, t)"
  shows "recompute s args key =
           (Fulfilled v,
            s\<lparr>world := snd (func s args (world s) (date_now s)), date_now := t,
              calls := calls s @ [(args, Fulfilled v)],
              cache := (cache s)(key \<mapsto> \<lparr>timestamp = t, entry_value = Direct v\<rparr>)\<rparr>)"
  using assms unfolding recompute_def invoke_func_def
  by (simp add: case_prod_beta)

lemma recompute_rejected:
  assumes "invoke_func s args = (Rejected e, t)"
  shows "recompute s args key =
           (Rejected e,
            s\<lparr>world := snd (func s args (world s) (date_now s)), date_now := t,
              calls := calls s @ [(args, Rejected e)]\<rparr>)"
  using assms unfolding recompute_def invoke_func_def
  by (simp add: case_prod_beta)

lemma recompute_calls:
  "calls (snd (recompute s args key)) = calls s @ [(args, fst (invoke_func s args))]"
  unfolding recompute_def invoke_func_def
  by (simp add: case_prod_beta Let_def split: settled.splits)

lemma recompute_result: "fst (recompute s args key) = fst (invoke_func s args)"
  unfolding recompute_def invoke_func_def
  by (simp add: case_prod_beta Let_def split: settled.splits)

lemma await_not_earlier: "t \<le> snd (await x t)"
  by (cases "(x, t)" rule: await.cases) simp_all

lemma invoke_func_not_earlier: "invoke_func s args = (r, t) \<Longrightarrow> date_now s \<le> t"
  using await_not_earlier[of "date_now s" "fst (func s args (world s) (date_now s))"]
  by (simp add: invoke_func_def)

lemma isEntryExpired_iff:
  "isEntryExpired t now ts \<longleftrightarrow> (\<exists>minutes. t = Some minutes \<and> now - ts > minutes * 60000)"
  by (simp add: isEntryExpired_def millisecondsPerMinute_def split: option.splits)

lemma isEntryExpired_later:
  "isEntryExpired t now ts \<Longrightarrow> now \<le> now' \<Longrightarrow> isEntryExpired t now' ts"
  by (auto simp: isEntryExpired_iff)

text \<open>
  Claim C9. \<^verbatim>\<open>deleteCache(...a1)\<close> derives its key by the rule of the memoized
  function and removes at most the entry under that key: the entry under the key of
  any \<open>a2\<close> with a different key, and every other entry, stay as they were, as does
  the rest of the state. Where the key has no entry, nothing changes; the operation
  has no failing path.
\<close>

theorem deleteCache_scoped:
  "(key_of a2 \<noteq> key_of a1 \<longrightarrow> cache (deleteCache s a1) (key_of a2) = cache s (key_of a2)) \<and>
   (\<forall>k. k \<noteq> key_of a1 \<longrightarrow> cache (deleteCache s a1) k = cache s k) \<and>
   cache (deleteCache s a1) (key_of a1) = None \<and>
   (cache s (key_of a1) = None \<longrightarrow> deleteCache s a1 = s) \<and>
   deleteCache s a1 = s\<lparr>cache := (cache s)(key_of a1 := None)\<rparr>"
proof -
  have del: "deleteCache s a1 = s\<lparr>cache := (cache s)(key_of a1 := None)\<rparr>"
    unfolding deleteCache_def key_of_length by simp
  have "cache s (key_of a1) = None \<longrightarrow> (cache s)(key_of a1 := None) = cache s"
    by (simp add: fun_upd_idem_iff)
  then show ?thesis unfolding del by simp
qed


lemma not_hit_later:
  assumes "\<not> hit s args" and "cache s' = cache s" and "ttl s' = ttl s"
    and "date_now s \<le> date_now s'"
  shows "\<not> hit s' args"
proof (cases "cache s (key_of args)")
  case None
  with assms(2) show ?thesis by (simp add: hit_def)
next
  case (Some entry)
  with assms(1) have "isEntryExpired (ttl s) (date_now s) (timestamp entry)"
    by (simp add: hit_def)
  from isEntryExpired_later[OF this assms(4)] Some assms(2,3) show ?thesis
    by (simp add: hit_def)
qed

text \<open>
  Claim C3. An entry is expired exactly when a TTL is configured and the time since
  the entry's timestamp is strictly more than the TTL in milliseconds (minutes times
  60000): an entry whose age is the TTL exactly is not expired, and without a TTL no
  entry is. A lookup that finds an expired entry invokes the wrapped function again;
  when that invocation is fulfilled, its value is returned and a new entry, stamped
  with the time read once the result has been awaited, replaces the old one. (When it
  fails, claim C2 applies.)
\<close>

theorem expiry_and_recomputation:
  "(isEntryExpired t now ts \<longleftrightarrow> (\<exists>minutes. t = Some minutes \<and> now - ts > minutes * 60000)) \<and>
   \<not> isEntryExpired (Some minutes) (ts + minutes * 60000) ts \<and>
   \<not> isEntryExpired None now ts \<and>
   (cache s (key_of args) = Some entry \<and>
    isEntryExpired (ttl s) (date_now s) (timestamp entry) \<longrightarrow>
      calls (snd (memoizedFunc s args)) = calls s @ [(args, fst (invoke_func s args))] \<and>
      (\<forall>v t1. invoke_func s args = (Fulfilled v, t1) \<longrightarrow>
         fst (memoizedFunc s args) = Fulfilled v \<and>
         cache (snd (memoizedFunc s args)) =
           (cache s)(key_of args \<mapsto> \<lparr>timestamp = t1, entry_value = Direct v\<rparr>) \<and>
         date_now (snd (memoizedFunc s args)) = t1))"
proof (intro conjI impI allI)
  show "isEntryExpired t now ts \<longleftrightarrow> (\<exists>minutes. t = Some minutes \<and> now - ts > minutes * 60000)"
    by (rule isEntryExpired_iff)
  show "\<not> isEntryExpired (Some minutes) (ts + minutes * 60000) ts"
    by (simp add: isEntryExpired_iff)
  show "\<not> isEntryExpired None now ts"
    by (simp add: isEntryExpired_iff)
next
  assume "cache s (key_of args) = Some entry \<and>
    isEntryExpired (ttl s) (date_now s) (timestamp entry)"
  then have "\<not> hit s args" by (simp add: hit_def)
  then have miss: "memoizedFunc s args = recompute s args (key_of args)"
    by (rule memoizedFunc_miss)
  show "calls (snd (memoizedFunc s args)) = calls s @ [(args, fst (invoke_func s args))]"
    unfolding miss by (rule recompute_calls)
  fix v t1
  assume ok: "invoke_func s args = (Fulfilled v, t1)"
  show "fst (memoizedFunc s args) = Fulfilled v"
    unfolding miss recompute_fulfilled[OF ok] by simp
  show "cache (snd (memoizedFunc s args)) =
           (cache s)(key_of args \<mapsto> \<lparr>timestamp = t1, entry_value = Direct v\<rparr>)"
    unfolding miss recompute_fulfilled[OF ok] by simp
  show "date_now (snd (memoizedFunc s args)) = t1"
    unfolding miss recompute_fulfilled[OF ok] by simp
qed

text \<open>
  Claim C1. When the cache holds an entry under the key of the arguments and that
  entry is not expired, the memoized function returns what the entry stores and does
  not invoke the wrapped function: the log of invocations, the function's own state
  and the cache are as before, and an entry that stores a direct value \<open>v\<close> gives
  \<open>v\<close> at once. In particular, when a first call misses and is fulfilled with \<open>v\<close>,
  writing an entry stamped \<open>t1\<close>, a second call with the same arguments, made once
  the first has completed and at a time \<open>t2\<close> at which that entry is within the TTL,
  returns the same \<open>v\<close>, and the two calls together have invoked the wrapped function
  exactly once.
\<close>

theorem cache_hit_skips_func:
  "(cache s (key_of args) = Some entry \<and>
    \<not> isEntryExpired (ttl s) (date_now s) (timestamp entry) \<longrightarrow>
      fst (memoizedFunc s args) = fst (await (Inr (entry_value entry)) (date_now s)) \<and>
      calls (snd (memoizedFunc s args)) = calls s \<and>
      world (snd (memoizedFunc s args)) = world s \<and>
      cache (snd (memoizedFunc s args)) = cache s \<and>
      (\<forall>v. entry_value entry = Direct v \<longrightarrow> memoizedFunc s args = (Fulfilled v, s))) \<and>
   (\<not> hit s args \<and> invoke_func s args = (Fulfilled v, t1) \<and>
    \<not> isEntryExpired (ttl s) t2 t1 \<longrightarrow>
      (let first = memoizedFunc s args;
           second = memoizedFunc ((snd first)\<lparr>date_now := t2\<rparr>) args
       in fst first = Fulfilled v \<and> fst second = Fulfilled v \<and>
          calls (snd second) = calls s @ [(args, Fulfilled v)]))"
proof (intro conjI impI allI)
  assume "cache s (key_of args) = Some entry \<and>
    \<not> isEntryExpired (ttl s) (date_now s) (timestamp entry)"
  then have e: "cache s (key_of args) = Some entry"
    and fresh: "\<not> isEntryExpired (ttl s) (date_now s) (timestamp entry)" by simp_all
  note h = memoizedFunc_hit[OF e fresh]
  show "fst (memoizedFunc s args) = fst (await (Inr (entry_value entry)) (date_now s))"
    unfolding h by simp
  show "calls (snd (memoizedFunc s args)) = calls s" unfolding h by simp
  show "world (snd (memoizedFunc s args)) = world s" unfolding h by simp
  show "cache (snd (memoizedFunc s args)) = cache s" unfolding h by simp
  fix v assume "entry_value entry = Direct v"
  then show "memoizedFunc s args = (Fulfilled v, s)" unfolding h by simp
next
  assume "\<not> hit s args \<and> invoke_func s args = (Fulfilled v, t1) \<and>
    \<not> isEntryExpired (ttl s) t2 t1"
  then have miss: "\<not> hit s args" and ok: "invoke_func s args = (Fulfilled v, t1)"
    and fresh: "\<not> isEntryExpired (ttl s) t2 t1" by simp_all
  define s1 where "s1 = s\<lparr>world := snd (func s args (world s) (date_now s)), date_now := t1,
              calls := calls s @ [(args, Fulfilled v)],
              cache := (cache s)(key_of args \<mapsto> \<lparr>timestamp = t1, entry_value = Direct v\<rparr>)\<rparr>"
  have first: "memoizedFunc s args = (Fulfilled v, s1)"
    unfolding memoizedFunc_miss[OF miss] recompute_fulfilled[OF ok] s1_def by simp
  let ?s2 = "s1\<lparr>date_now := t2\<rparr>"
  have e: "cache ?s2 (key_of args) = Some \<lparr>timestamp = t1, entry_value = Direct v\<rparr>"
    by (simp add: s1_def)
  have f: "\<not> isEntryExpired (ttl ?s2) (date_now ?s2)
             (timestamp \<lparr>timestamp = t1, entry_value = Direct v\<rparr>)"
    using fresh by (simp add: s1_def)
  have second: "memoizedFunc ?s2 args = (Fulfilled v, ?s2)"
    unfolding memoizedFunc_hit[OF e f] by simp
  show "let first = memoizedFunc s args;
           second = memoizedFunc ((snd first)\<lparr>date_now := t2\<rparr>) args
       in fst first = Fulfilled v \<and> fst second = Fulfilled v \<and>
          calls (snd second) = calls s @ [(args, Fulfilled v)]"
    unfolding Let_def first using second by (simp add: s1_def)
qed

text \<open>
  Claim C2. When a call invokes the wrapped function and the invocation fails (it
  throws, or the promise it returns rejects), the memoized function rejects with the
  same reason and the cache mapping is exactly as it was before the call. A later
  call with the same arguments (the clock not running backwards) misses again and
  invokes the wrapped function again: it ends the way that new invocation ends.
\<close>

theorem failure_not_cached:
  "\<not> hit s args \<and> invoke_func s args = (Rejected e, t1) \<longrightarrow>
     fst (memoizedFunc s args) = Rejected e \<and>
     cache (snd (memoizedFunc s args)) = cache s \<and>
     (\<forall>t2 \<ge> t1. let s2 = (snd (memoizedFunc s args))\<lparr>date_now := t2\<rparr>
        in \<not> hit s2 args \<and>
           fst (memoizedFunc s2 args) = fst (invoke_func s2 args) \<and>
           calls (snd (memoizedFunc s2 args)) =
             calls s @ [(args, Rejected e), (args, fst (invoke_func s2 args))])"
proof (intro impI)
  assume "\<not> hit s args \<and> invoke_func s args = (Rejected e, t1)"
  then have miss: "\<not> hit s args" and bad: "invoke_func s args = (Rejected e, t1)"
    by simp_all
  define s1 where "s1 = s\<lparr>world := snd (func s args (world s) (date_now s)), date_now := t1,
              calls := calls s @ [(args, Rejected e)]\<rparr>"
  have first: "memoizedFunc s args = (Rejected e, s1)"
    unfolding memoizedFunc_miss[OF miss] recompute_rejected[OF bad] s1_def by simp
  have later: "\<not> hit (s1\<lparr>date_now := t2\<rparr>) args \<and>
      fst (memoizedFunc (s1\<lparr>date_now := t2\<rparr>) args) = fst (invoke_func (s1\<lparr>date_now := t2\<rparr>) args) \<and>
      calls (snd (memoizedFunc (s1\<lparr>date_now := t2\<rparr>) args)) =
        calls s @ [(args, Rejected e), (args, fst (invoke_func (s1\<lparr>date_now := t2\<rparr>) args))]"
    if t2: "t1 \<le> t2" for t2
  proof -
    let ?s2 = "s1\<lparr>date_now := t2\<rparr>"
    have "date_now s \<le> t1" using bad by (rule invoke_func_not_earlier)
    with t2 have le: "date_now s \<le> date_now ?s2" by simp
    have miss2: "\<not> hit ?s2 args"
      by (rule not_hit_later[OF miss _ _ le]) (simp_all add: s1_def)
    have "calls ?s2 = calls s @ [(args, Rejected e)]" by (simp add: s1_def)
    then show ?thesis
      unfolding memoizedFunc_miss[OF miss2] recompute_result recompute_calls
      using miss2 by simp
  qed
  show "fst (memoizedFunc s args) = Rejected e \<and>
     cache (snd (memoizedFunc s args)) = cache s \<and>
     (\<forall>t2 \<ge> t1. let s2 = (snd (memoizedFunc s args))\<lparr>date_now := t2\<rparr>
        in \<not> hit s2 args \<and>
           fst (memoizedFunc s2 args) = fst (invoke_func s2 args) \<and>
           calls (snd (memoizedFunc s2 args)) =
             calls s @ [(args, Rejected e), (args, fst (invoke_func s2 args))])"
    unfolding first Let_def using later by (simp add: s1_def)
qed

lemmas example_defs =
  example_memo_def example_failing_def example_cached_def example_func_def asyncCache_def
  key_of_def JSON_stringify_def number_toString_def number_inverse digits.simps QuoteJSONString_def
  escape_char_def

lemma key_7: "key_of [JNum (number 7)] = ''[7]''"
  by (simp add: example_defs)

lemma key_x: "key_of [JStr ''x''] = [CHR ''['', CHR 0x22, CHR ''x'', CHR 0x22, CHR '']'']"
  by (simp add: example_defs)

theorem deleteCache_scoped_witness:
  "key_of [JStr ''x''] \<noteq> key_of [JNum (number 7)] \<and>
   cache (deleteCache example_cached [JNum (number 7)]) (key_of [JStr ''x'']) =
     Some \<lparr>timestamp = 10, entry_value = Direct 6\<rparr> \<and>
   cache (deleteCache example_cached [JNum (number 7)]) (key_of [JNum (number 7)]) = None \<and>
   cache example_memo (key_of [JNum (number 7)]) = None \<and>
   deleteCache example_memo [JNum (number 7)] = example_memo"
proof -
  have 1: "key_of [JStr ''x''] \<noteq> key_of [JNum (number 7)]" by (simp add: key_7 key_x)
  have 2: "cache example_memo (key_of [JNum (number 7)]) = None"
    by (simp add: example_memo_def asyncCache_def)
  have 3: "cache example_cached (key_of [JStr ''x'']) = Some \<lparr>timestamp = 10, entry_value = Direct 6\<rparr>"
    by (simp add: example_cached_def)
  from deleteCache_scoped[of "[JStr ''x'']" "[JNum (number 7)]" example_cached]
       deleteCache_scoped[of "[JStr ''x'']" "[JNum (number 7)]" example_memo] 1 2 3
  show ?thesis by simp
qed

theorem failure_not_cached_witness:
  "\<not> hit example_failing [JNum (number 7)] \<and>
   invoke_func example_failing [JNum (number 7)] = (Rejected ''unavailable'', 1000) \<and>
   fst (memoizedFunc example_failing [JNum (number 7)]) = Rejected ''unavailable'' \<and>
   cache (snd (memoizedFunc example_failing [JNum (number 7)])) = cache example_failing \<and>
   (1000::int) \<le> 2000 \<and>
   fst (memoizedFunc ((snd (memoizedFunc example_failing [JNum (number 7)]))\<lparr>date_now := 2000\<rparr>) [JNum (number 7)])
     = Fulfilled 2"
proof -
  have 1: "\<not> hit example_failing [JNum (number 7)]"
    by (simp add: hit_def example_failing_def asyncCache_def)
  have 2: "invoke_func example_failing [JNum (number 7)] = (Rejected ''unavailable'', 1000)"
    by (simp add: invoke_func_def example_failing_def asyncCache_def example_func_def)
  have 3: "snd (memoizedFunc example_failing [JNum (number 7)]) =
             example_failing\<lparr>world := 1, date_now := 1000,
               calls := [([JNum (number 7)], Rejected ''unavailable'')]\<rparr>"
    unfolding memoizedFunc_miss[OF 1] recompute_rejected[OF 2]
    by (simp add: example_failing_def asyncCache_def example_func_def)
  have 4: "fst (invoke_func ((snd (memoizedFunc example_failing [JNum (number 7)]))\<lparr>date_now := 2000\<rparr>) [JNum (number 7)])
             = Fulfilled 2"
    unfolding 3 by (simp add: invoke_func_def example_failing_def asyncCache_def example_func_def)
  from failure_not_cached[of example_failing "[JNum (number 7)]" "''unavailable''" 1000] 1 2
  have "fst (memoizedFunc example_failing [JNum (number 7)]) = Rejected ''unavailable'' \<and>
     cache (snd (memoizedFunc example_failing [JNum (number 7)])) = cache example_failing \<and>
     (\<forall>t2 \<ge> 1000. let s2 = (snd (memoizedFunc example_failing [JNum (number 7)]))\<lparr>date_now := t2\<rparr>
        in \<not> hit s2 [JNum (number 7)] \<and>
           fst (memoizedFunc s2 [JNum (number 7)]) = fst (invoke_func s2 [JNum (number 7)]) \<and>
           calls (snd (memoizedFunc s2 [JNum (number 7)])) =
             calls example_failing @ [([JNum (number 7)], Rejected ''unavailable''),
                                      ([JNum (number 7)], fst (invoke_func s2 [JNum (number 7)]))])"
    by blast
  then have "fst (memoizedFunc example_failing [JNum (number 7)]) = Rejected ''unavailable''"
    and "cache (snd (memoizedFunc example_failing [JNum (number 7)])) = cache example_failing"
    and "fst (memoizedFunc ((snd (memoizedFunc example_failing [JNum (number 7)]))\<lparr>date_now := 2000\<rparr>) [JNum (number 7)])
          = fst (invoke_func ((snd (memoizedFunc example_failing [JNum (number 7)]))\<lparr>date_now := 2000\<rparr>) [JNum (number 7)])"
    by (simp_all add: Let_def)
  with 1 2 4 show ?thesis by simp
qed

theorem expiry_and_recomputation_witness:
  "cache (example_cached\<lparr>date_now := 60001\<rparr>) (key_of [JNum (number 7)]) =
     Some \<lparr>timestamp = 0, entry_value = Direct 5\<rparr> \<and>
   isEntryExpired (ttl (example_cached\<lparr>date_now := 60001\<rparr>)) 60001 0 \<and>
   \<not> isEntryExpired (Some 1) 60000 0 \<and>
   invoke_func (example_cached\<lparr>date_now := 60001\<rparr>) [JNum (number 7)] = (Fulfilled 2, 60251) \<and>
   fst (memoizedFunc (example_cached\<lparr>date_now := 60001\<rparr>) [JNum (number 7)]) = Fulfilled 2 \<and>
   calls (snd (memoizedFunc (example_cached\<lparr>date_now := 60001\<rparr>) [JNum (number 7)])) =
     [([JNum (number 7)], Fulfilled 2)] \<and>
   cache (snd (memoizedFunc (example_cached\<lparr>date_now := 60001\<rparr>) [JNum (number 7)])) (key_of [JNum (number 7)]) =
     Some \<lparr>timestamp = 60251, entry_value = Direct 2\<rparr>"
proof -
  let ?s = "example_cached\<lparr>date_now := 60001\<rparr>"
  have 1: "cache ?s (key_of [JNum (number 7)]) = Some \<lparr>timestamp = 0, entry_value = Direct 5\<rparr>"
    by (simp add: example_cached_def key_7 key_x)
  have 2: "isEntryExpired (ttl ?s) (date_now ?s) (timestamp \<lparr>timestamp = 0, entry_value = Direct (5::nat)\<rparr>)"
    by (simp add: example_cached_def example_memo_def asyncCache_def isEntryExpired_def
        millisecondsPerMinute_def)
  have 3: "invoke_func ?s [JNum (number 7)] = (Fulfilled 2, 60251)"
    by (simp add: invoke_func_def example_cached_def example_memo_def asyncCache_def
        example_func_def)
  have 4: "calls ?s = []"
    by (simp add: example_cached_def example_memo_def asyncCache_def)
  from expiry_and_recomputation[of "Some 1" 60000 0 1 ?s "[JNum (number 7)]"
         "\<lparr>timestamp = 0, entry_value = Direct 5\<rparr>"] 1 2 3 4
  show ?thesis by simp
qed

theorem cache_hit_skips_func_witness:
  "cache (example_cached\<lparr>date_now := 60000\<rparr>) (key_of [JNum (number 7)]) =
     Some \<lparr>timestamp = 0, entry_value = Direct 5\<rparr> \<and>
   \<not> isEntryExpired (ttl (example_cached\<lparr>date_now := 60000\<rparr>)) 60000 0 \<and>
   memoizedFunc (example_cached\<lparr>date_now := 60000\<rparr>) [JNum (number 7)] =
     (Fulfilled 5, example_cached\<lparr>date_now := 60000\<rparr>) \<and>
   \<not> hit example_memo [JNum (number 7)] \<and>
   invoke_func example_memo [JNum (number 7)] = (Fulfilled 2, 250) \<and>
   \<not> isEntryExpired (ttl example_memo) 60250 250 \<and>
   fst (memoizedFunc example_memo [JNum (number 7)]) = Fulfilled 2 \<and>
   fst (memoizedFunc ((snd (memoizedFunc example_memo [JNum (number 7)]))\<lparr>date_now := 60250\<rparr>) [JNum (number 7)])
     = Fulfilled 2 \<and>
   calls (snd (memoizedFunc ((snd (memoizedFunc example_memo [JNum (number 7)]))\<lparr>date_now := 60250\<rparr>)
                  [JNum (number 7)])) = [([JNum (number 7)], Fulfilled 2)]"
proof -
  let ?s = "example_cached\<lparr>date_now := 60000\<rparr>"
  have 1: "cache ?s (key_of [JNum (number 7)]) = Some \<lparr>timestamp = 0, entry_value = Direct 5\<rparr>"
    by (simp add: example_cached_def key_7 key_x)
  have 2: "\<not> isEntryExpired (ttl ?s) (date_now ?s) (timestamp \<lparr>timestamp = 0, entry_value = Direct (5::nat)\<rparr>)"
    by (simp add: example_cached_def example_memo_def asyncCache_def isEntryExpired_def
        millisecondsPerMinute_def)
  have 3: "\<not> hit example_memo [JNum (number 7)]"
    by (simp add: hit_def example_memo_def asyncCache_def)
  have 4: "invoke_func example_memo [JNum (number 7)] = (Fulfilled 2, 250)"
    by (simp add: invoke_func_def example_memo_def asyncCache_def example_func_def)
  have 5: "\<not> isEntryExpired (ttl example_memo) 60250 250"
    by (simp add: example_memo_def asyncCache_def isEntryExpired_def millisecondsPerMinute_def)
  have 6: "calls example_memo = []"
    by (simp add: example_memo_def asyncCache_def)
  from cache_hit_skips_func[where s = ?s and args = "[JNum (number 7)]"
         and entry = "\<lparr>timestamp = 0, entry_value = Direct 5\<rparr>"]
       cache_hit_skips_func[where s = example_memo and args = "[JNum (number 7)]" and v = 2
         and ?t1.0 = 250 and ?t2.0 = 60250] 1 2 3 4 5 6
  show ?thesis by (simp add: Let_def)
qed

section \<open>The cache wrapper: what the entries hold\<close>

lemma invoke_and_suspend_cases:
  "(\<exists>w e. invoke_and_suspend s args key =
            (s\<lparr>world := w, calls := calls s @ [(args, Rejected e)]\<rparr>, None)) \<or>
   (\<exists>w x. invoke_and_suspend s args key = (s\<lparr>world := w\<rparr>, Some (args, key, x)))"
  unfolding invoke_and_suspend_def
  by (cases "fst (func s args (world s) (date_now s))") (auto simp: case_prod_beta)

lemma begin_call_cases:
  "begin_call s args = (s, None) \<or>
   (\<exists>w e. begin_call s args =
            (s\<lparr>world := w, calls := calls s @ [(args, Rejected e)]\<rparr>, None)) \<or>
   (\<exists>w x. begin_call s args = (s\<lparr>world := w\<rparr>, Some (args, key_of args, x)))"
  using invoke_and_suspend_cases[of s args "key_of args"]
  unfolding begin_call_def key_of_length
  by (auto simp: Let_def split: option.splits)

lemma begin_call_hit: "hit s args \<Longrightarrow> begin_call s args = (s, None)"
  unfolding begin_call_def key_of_length hit_def
  by (auto split: option.splits)

lemma begin_call_miss:
  "\<not> hit s args \<Longrightarrow> begin_call s args = invoke_and_suspend s args (key_of args)"
  unfolding begin_call_def key_of_length hit_def
  by (auto split: option.splits)

text \<open>
  The call run to completion is the call begun, the clock moved to the instant at which
  what it awaits settles, and the call resumed.
\<close>

lemma await_outcome: "fst (await y t') = fst (await y t)"
  by (cases "(y, t)" rule: await.cases) simp_all

lemma memoizedFunc_decomposed:
  assumes "\<not> hit s args"
  shows "snd (memoizedFunc s args) =
           (case begin_call s args of
              (s', None) \<Rightarrow> s'
            | (s', Some (a, k, x)) \<Rightarrow>
                resume (s'\<lparr>date_now := snd (await (Inr x) (date_now s))\<rparr>) (a, k, x))"
proof (cases "fst (func s args (world s) (date_now s))")
  case (Inl e)
  then show ?thesis
    unfolding memoizedFunc_miss[OF assms] begin_call_miss[OF assms]
    by (simp add: recompute_def invoke_and_suspend_def case_prod_beta)
next
  case (Inr x)
  let ?w = "snd (func s args (world s) (date_now s))"
  let ?t = "snd (await (Inr x) (date_now s))"
  have b: "begin_call s args = (s\<lparr>world := ?w\<rparr>, Some (args, key_of args, x))"
    unfolding begin_call_miss[OF assms] using Inr
    by (simp add: invoke_and_suspend_def case_prod_beta)
  have out: "fst (await (Inr x) ?t)
               = fst (await (Inr x) (date_now s))"
    by (rule await_outcome)
  show ?thesis
  proof (cases "fst (await (Inr x) (date_now s))")
    case (Fulfilled v)
    then show ?thesis
      unfolding memoizedFunc_miss[OF assms] b using Inr out
      by (simp add: recompute_def resume_def case_prod_beta Let_def)
  next
    case (Rejected e)
    then show ?thesis
      unfolding memoizedFunc_miss[OF assms] b using Inr out
      by (simp add: recompute_def resume_def case_prod_beta Let_def)
  qed
qed

lemma settled_entries_init: "settled_entries (asyncCache f t w now)"
  by (simp add: settled_entries_def asyncCache_def)

lemma settled_entries_begin_call:
  assumes "settled_entries s"
  shows "settled_entries (fst (begin_call s args))"
  using begin_call_cases[of s args] assms
  unfolding settled_entries_def by fastforce

lemma keyed_begin_call:
  "keyed (case snd (begin_call s args) of None \<Rightarrow> [] | Some k \<Rightarrow> [k])"
  using begin_call_cases[of s args]
  unfolding keyed_def by fastforce

lemma settled_entries_resume:
  assumes inv: "settled_entries s"
  shows "settled_entries (resume s (args, key_of args, x))"
proof (cases "fst (await (Inr x) (date_now s))")
  case (Rejected e)
  then have "resume s (args, key_of args, x) = s\<lparr>calls := calls s @ [(args, Rejected e)]\<rparr>"
    by (simp add: resume_def)
  with inv show ?thesis unfolding settled_entries_def by fastforce
next
  case (Fulfilled v)
  then have r: "resume s (args, key_of args, x) =
      s\<lparr>calls := calls s @ [(args, Fulfilled v)],
        cache := (cache s)(key_of args \<mapsto> \<lparr>timestamp = date_now s, entry_value = Direct v\<rparr>)\<rparr>"
    by (simp add: resume_def)
  show ?thesis unfolding r settled_entries_def
  proof (intro allI impI)
    fix k entry
    assume look: "cache (s\<lparr>calls := calls s @ [(args, Fulfilled v)],
        cache := (cache s)(key_of args \<mapsto> \<lparr>timestamp = date_now s, entry_value = Direct v\<rparr>)\<rparr>) k
        = Some entry"
    show "\<exists>a u. (a, Fulfilled u) \<in> set (calls (s\<lparr>calls := calls s @ [(args, Fulfilled v)],
              cache := (cache s)(key_of args \<mapsto>
                          \<lparr>timestamp = date_now s, entry_value = Direct v\<rparr>)\<rparr>)) \<and>
            key_of a = k \<and> entry_value entry = Direct u"
    proof (cases "k = key_of args")
      case True
      with look have "entry_value entry = Direct v" by auto
      with True show ?thesis by (intro exI[of _ args] exI[of _ v]) simp
    next
      case False
      with look have "cache s k = Some entry" by simp
      with inv obtain a u where "(a, Fulfilled u) \<in> set (calls s)" "key_of a = k"
        "entry_value entry = Direct u"
        unfolding settled_entries_def by blast
      then show ?thesis by (intro exI[of _ a] exI[of _ u]) simp
    qed
  qed
qed

lemma invariant_step:
  assumes inv: "settled_entries (wrapper c)" and keys: "keyed (suspended_calls c)"
  shows "settled_entries (wrapper (step c ev)) \<and> keyed (suspended_calls (step c ev))"
proof (cases ev)
  case (Call args)
  have "settled_entries (fst (begin_call (wrapper c) args))"
    using inv by (rule settled_entries_begin_call)
  moreover have "keyed (suspended_calls c @
      (case snd (begin_call (wrapper c) args) of None \<Rightarrow> [] | Some k \<Rightarrow> [k]))"
    using keys keyed_begin_call[of "wrapper c" args] by (auto simp: keyed_def)
  ultimately show ?thesis using Call by (simp add: case_prod_beta)
next
  case (Resume i)
  show ?thesis
  proof (cases "i < length (suspended_calls c) \<and>
         settled_by (snd (snd (suspended_calls c ! i))) (date_now (wrapper c))")
    case True
    obtain a k x where call: "suspended_calls c ! i = (a, k, x)"
      by (cases "suspended_calls c ! i")
    from True call have mem: "(a, k, x) \<in> set (suspended_calls c)"
      by (metis nth_mem)
    with keys have k: "k = key_of a" unfolding keyed_def by blast
    have 1: "settled_entries (resume (wrapper c) (suspended_calls c ! i))"
      unfolding call k using inv by (rule settled_entries_resume)
    have "set (take i (suspended_calls c) @ drop (Suc i) (suspended_calls c))
            \<subseteq> set (suspended_calls c)"
      using set_take_subset set_drop_subset by fastforce
    with keys have 2: "keyed (take i (suspended_calls c) @ drop (Suc i) (suspended_calls c))"
      unfolding keyed_def by blast
    from 1 2 True Resume show ?thesis by simp
  next
    case False
    with Resume assms show ?thesis by auto
  qed
next
  case (Delete args)
  with assms show ?thesis
    by (auto simp: settled_entries_def deleteCache_def Let_def split: if_splits)
next
  case Clear
  with keys show ?thesis by (simp add: settled_entries_def clearCache_def)
next
  case (Tick t)
  with assms show ?thesis by (simp add: settled_entries_def)
qed

lemma invariant_foldl:
  "settled_entries (wrapper c) \<Longrightarrow> keyed (suspended_calls c) \<Longrightarrow>
   settled_entries (wrapper (foldl step c events))"
  by (induction events arbitrary: c) (simp_all add: invariant_step)

lemma settled_entries_run:
  "settled_entries (wrapper (run (fresh_system f t w now) events))"
  unfolding run_def
  by (rule invariant_foldl) (simp_all add: fresh_system_def settled_entries_init keyed_def)

text \<open>
  Claim C10. In every state a wrapper can reach from its creation, by calls of the
  memoized function that begin and resume in any interleaving, deletions, clearings
  and clock movements, each cache entry stores a direct value, never a promise, and
  that value is one that an awaited invocation of the wrapped function with arguments
  of the entry's key was fulfilled with. So a hit returns such a value at once and
  leaves the state as it is: it replays neither a pending nor a rejected operation.
\<close>

theorem entries_hold_awaited_values:
  "(cache (wrapper (run (fresh_system f t w now) events)) k = Some entry \<longrightarrow>
      (\<exists>args v. (args, Fulfilled v) \<in> set (calls (wrapper (run (fresh_system f t w now) events))) \<and>
                key_of args = k \<and> entry_value entry = Direct v)) \<and>
   (hit (wrapper (run (fresh_system f t w now) events)) a \<longrightarrow>
      (\<exists>args v. memoizedFunc (wrapper (run (fresh_system f t w now) events)) a =
                  (Fulfilled v, wrapper (run (fresh_system f t w now) events)) \<and>
                (args, Fulfilled v) \<in> set (calls (wrapper (run (fresh_system f t w now) events))) \<and>
                key_of args = key_of a))"
proof (intro conjI impI)
  let ?s = "wrapper (run (fresh_system f t w now) events)"
  have inv: "settled_entries ?s" by (rule settled_entries_run)
  {
    assume "cache ?s k = Some entry"
    with inv show "\<exists>args v. (args, Fulfilled v) \<in> set (calls ?s) \<and>
                key_of args = k \<and> entry_value entry = Direct v"
      unfolding settled_entries_def by blast
  }
  {
    assume "hit ?s a"
    then obtain e where e: "cache ?s (key_of a) = Some e"
      and fresh: "\<not> isEntryExpired (ttl ?s) (date_now ?s) (timestamp e)"
      by (auto simp: hit_def split: option.splits)
    from inv e obtain args v where prov: "(args, Fulfilled v) \<in> set (calls ?s)"
      "key_of args = key_of a" and dir: "entry_value e = Direct v"
      unfolding settled_entries_def by blast
    have "memoizedFunc ?s a = (Fulfilled v, ?s)"
      unfolding memoizedFunc_hit[OF e fresh] dir by simp
    with prov show "\<exists>args v. memoizedFunc ?s a = (Fulfilled v, ?s) \<and>
                (args, Fulfilled v) \<in> set (calls ?s) \<and> key_of args = key_of a"
      by blast
  }
qed

text \<open>
  Two calls with the same argument, begun before either resumes: both invoke the
  wrapped function, and the entry written last stays.
\<close>

lemma example_run:
  "wrapper (run (fresh_system example_func (Some 1) 1 0)
              [Call [JNum (number 7)], Call [JNum (number 7)], Tick 1000, Resume 0, Resume 0]) =
     example_memo\<lparr>world := 3, date_now := 1000,
       calls := [([JNum (number 7)], Fulfilled 2), ([JNum (number 7)], Fulfilled 3)],
       cache := [''[7]'' \<mapsto> \<lparr>timestamp = 1000, entry_value = Direct 3\<rparr>]\<rparr>"
  unfolding run_def fresh_system_def
  by (simp add: begin_call_def invoke_and_suspend_def resume_def example_memo_def
      asyncCache_def example_func_def JSON_stringify_def number_toString_def number_inverse digits.simps
      numeral_3_eq_3)

theorem entries_hold_awaited_values_witness:
  "cache (wrapper (run (fresh_system example_func (Some 1) 1 0)
              [Call [JNum (number 7)], Call [JNum (number 7)], Tick 1000, Resume 0, Resume 0])) ''[7]'' =
     Some \<lparr>timestamp = 1000, entry_value = Direct 3\<rparr> \<and>
   hit (wrapper (run (fresh_system example_func (Some 1) 1 0)
              [Call [JNum (number 7)], Call [JNum (number 7)], Tick 1000, Resume 0, Resume 0])) [JNum (number 7)] \<and>
   (\<exists>args v. (args, Fulfilled v) \<in>
        set (calls (wrapper (run (fresh_system example_func (Some 1) 1 0)
              [Call [JNum (number 7)], Call [JNum (number 7)], Tick 1000, Resume 0, Resume 0]))) \<and>
      key_of args = ''[7]'' \<and> Direct 3 = Direct v) \<and>
   (\<exists>args v. memoizedFunc (wrapper (run (fresh_system example_func (Some 1) 1 0)
              [Call [JNum (number 7)], Call [JNum (number 7)], Tick 1000, Resume 0, Resume 0])) [JNum (number 7)] =
              (Fulfilled v, wrapper (run (fresh_system example_func (Some 1) 1 0)
              [Call [JNum (number 7)], Call [JNum (number 7)], Tick 1000, Resume 0, Resume 0])) \<and>
      (args, Fulfilled v) \<in>
        set (calls (wrapper (run (fresh_system example_func (Some 1) 1 0)
              [Call [JNum (number 7)], Call [JNum (number 7)], Tick 1000, Resume 0, Resume 0]))) \<and>
      key_of args = key_of [JNum (number 7)])"
proof -
  let ?s = "wrapper (run (fresh_system example_func (Some 1) 1 0)
              [Call [JNum (number 7)], Call [JNum (number 7)], Tick 1000, Resume 0, Resume 0])"
  have 1: "cache ?s ''[7]'' = Some \<lparr>timestamp = 1000, entry_value = Direct 3\<rparr>"
    unfolding example_run by simp
  have 2: "hit ?s [JNum (number 7)]"
    unfolding example_run
    by (simp add: hit_def key_7 isEntryExpired_def millisecondsPerMinute_def example_memo_def
        asyncCache_def)
  from entries_hold_awaited_values[of example_func "Some 1" 1 0
         "[Call [JNum (number 7)], Call [JNum (number 7)], Tick 1000, Resume 0, Resume 0]"
         "''[7]''" "\<lparr>timestamp = 1000, entry_value = Direct 3\<rparr>" "[JNum (number 7)]"] 1 2
  show ?thesis by simp
qed

section \<open>Key derivation\<close>

lemma serialize_forget_identity:
  "SerializeJSONProperty (forget_identity v) = SerializeJSONProperty v"
proof (induction v rule: forget_identity.induct)
  case (1 r xs)
  then have "map (\<lambda>x. case SerializeJSONProperty x of None \<Rightarrow> ''null'' | Some s \<Rightarrow> s)
               (map forget_identity xs) =
             map (\<lambda>x. case SerializeJSONProperty x of None \<Rightarrow> ''null'' | Some s \<Rightarrow> s) xs"
    by (simp cong: map_cong)
  then show ?case by (simp only: forget_identity.simps SerializeJSONProperty.simps)
next
  case (2 r ps)
  have "map (\<lambda>(k, v). case SerializeJSONProperty v of
                          None \<Rightarrow> []
                        | Some s \<Rightarrow> [QuoteJSONString k @ CHR '':'' # s])
          (map (\<lambda>(k, v). (k, forget_identity v)) ps) =
        map (\<lambda>(k, v). case SerializeJSONProperty v of
                          None \<Rightarrow> []
                        | Some s \<Rightarrow> [QuoteJSONString k @ CHR '':'' # s]) ps"
  proof (simp only: map_map, rule map_cong[OF refl])
    fix p assume p: "p \<in> set ps"
    obtain k v where kv: "p = (k, v)" by (cases p)
    from p kv have "(k, v) \<in> set ps" by simp
    then have "SerializeJSONProperty (forget_identity v) = SerializeJSONProperty v"
      by (rule 2[OF _ refl])
    then show "((\<lambda>(k, v). case SerializeJSONProperty v of
                          None \<Rightarrow> []
                        | Some s \<Rightarrow> [QuoteJSONString k @ CHR '':'' # s]) \<circ>
                (\<lambda>(k, v). (k, forget_identity v))) p =
               (case p of (k, v) \<Rightarrow> case SerializeJSONProperty v of
                          None \<Rightarrow> []
                        | Some s \<Rightarrow> [QuoteJSONString k @ CHR '':'' # s])"
      by (simp add: kv)
  qed
  then show ?case by (simp only: forget_identity.simps SerializeJSONProperty.simps)
qed simp_all

lemma JSON_stringify_forget_identity:
  assumes "map forget_identity a1 = map forget_identity a2"
  shows "JSON_stringify a1 = JSON_stringify a2"
proof -
  let ?el = "\<lambda>x. case SerializeJSONProperty x of None \<Rightarrow> ''null'' | Some s \<Rightarrow> s"
  have "map ?el a = map ?el (map forget_identity a)" for a
    by (simp add: serialize_forget_identity cong: map_cong)
  then have "map ?el a1 = map ?el a2" using assms by metis
  then show ?thesis by (simp add: JSON_stringify_def)
qed

lemma key_of_not_sentinel: "args \<noteq> [] \<Longrightarrow> key_of args \<noteq> ''genericKey''"
  by (simp add: key_of_def JSON_stringify_def)

text \<open>
  Claim C6, as the code has it. The property fails as stated: two argument lists that
  \<^verbatim>\<open>deepEqual\<close> finds equal, an object with the properties \<open>a\<close>, \<open>b\<close> and one with the
  same properties as \<open>b\<close>, \<open>a\<close>, derive different keys, because \<^verbatim>\<open>JSON.stringify\<close>
  writes properties in enumeration order.
\<close>

theorem key_derivation_counterexample:
  "deepEqual (JArr 1 [JObj 2 [(''a'', JNum (number 1)), (''b'', JNum (number 2))]])
             (JArr 3 [JObj 4 [(''b'', JNum (number 2)), (''a'', JNum (number 1))]]) \<and>
   key_of [JObj 2 [(''a'', JNum (number 1)), (''b'', JNum (number 2))]] \<noteq>
   key_of [JObj 4 [(''b'', JNum (number 2)), (''a'', JNum (number 1))]]"
proof
  show "deepEqual (JArr 1 [JObj 2 [(''a'', JNum (number 1)), (''b'', JNum (number 2))]])
             (JArr 3 [JObj 4 [(''b'', JNum (number 2)), (''a'', JNum (number 1))]])"
    by (auto simp: deepEqual_def)
  show "key_of [JObj 2 [(''a'', JNum (number 1)), (''b'', JNum (number 2))]] \<noteq>
        key_of [JObj 4 [(''b'', JNum (number 2)), (''a'', JNum (number 1))]]"
    by (simp add: key_of_def JSON_stringify_def QuoteJSONString_def escape_char_def
        number_toString_def number_inverse digits.simps)
qed

text \<open>
  Claim C6, amended. All calls without arguments derive the one key
  \<^verbatim>\<open>"genericKey"\<close>, which no call with arguments derives. Two argument lists with the
  same content, object properties in the same order, derive the same key even when
  their arrays and objects are different objects. The key of a non-empty list is its
  JSON serialization: the serializations of the arguments, in the order of the
  arguments, separated by commas and enclosed in brackets. Both the memoized function
  and \<^verbatim>\<open>deleteCache\<close> derive their key so.
\<close>

theorem key_derivation:
  "key_of [] = ''genericKey'' \<and>
   (args \<noteq> [] \<longrightarrow>
      key_of args \<noteq> ''genericKey'' \<and>
      key_of args =
        CHR ''['' #
        commas (map (\<lambda>x. case SerializeJSONProperty x of None \<Rightarrow> ''null'' | Some s \<Rightarrow> s) args)
        @ '']'') \<and>
   (map forget_identity a1 = map forget_identity a2 \<longrightarrow> key_of a1 = key_of a2) \<and>
   (if length args = 0 then ''genericKey'' else JSON_stringify args) = key_of args"
proof (intro conjI impI)
  show "key_of [] = ''genericKey''" by (simp add: key_of_def)
  show "(if length args = 0 then ''genericKey'' else JSON_stringify args) = key_of args"
    by (rule key_of_length)
next
  assume "args \<noteq> []"
  then show "key_of args \<noteq> ''genericKey''" by (rule key_of_not_sentinel)
  from \<open>args \<noteq> []\<close> show "key_of args =
        CHR ''['' #
        commas (map (\<lambda>x. case SerializeJSONProperty x of None \<Rightarrow> ''null'' | Some s \<Rightarrow> s) args)
        @ '']''"
    by (simp add: key_of_def JSON_stringify_def)
next
  assume eq: "map forget_identity a1 = map forget_identity a2"
  then have "length a1 = length a2" by (metis length_map)
  then have "a1 = [] \<longleftrightarrow> a2 = []" by auto
  with JSON_stringify_forget_identity[OF eq] show "key_of a1 = key_of a2"
    by (simp add: key_of_def)
qed

theorem key_derivation_witness:
  "[JObj 2 [(''a'', JNum (number 1)), (''b'', JNum (number 2))], JArr 5 [JNull]] \<noteq> [] \<and>
   map forget_identity [JObj 2 [(''a'', JNum (number 1)), (''b'', JNum (number 2))], JArr 5 [JNull]] =
   map forget_identity [JObj 4 [(''a'', JNum (number 1)), (''b'', JNum (number 2))], JArr 6 [JNull]] \<and>
   key_of [JObj 2 [(''a'', JNum (number 1)), (''b'', JNum (number 2))], JArr 5 [JNull]] =
   key_of [JObj 4 [(''a'', JNum (number 1)), (''b'', JNum (number 2))], JArr 6 [JNull]] \<and>
   key_of [JObj 2 [(''a'', JNum (number 1)), (''b'', JNum (number 2))], JArr 5 [JNull]] \<noteq> ''genericKey''"
proof -
  let ?a1 = "[JObj 2 [(''a'', JNum (number 1)), (''b'', JNum (number 2))], JArr 5 [JNull]]"
  let ?a2 = "[JObj 4 [(''a'', JNum (number 1)), (''b'', JNum (number 2))], JArr 6 [JNull]]"
  have 1: "?a1 \<noteq> []" by simp
  have 2: "map forget_identity ?a1 = map forget_identity ?a2" by simp
  from key_derivation[of ?a1 ?a1 ?a2] 1 2
  have "key_of ?a1 \<noteq> ''genericKey''" and "key_of ?a1 = key_of ?a2" by blast+
  with 1 2 show ?thesis by blast
qed

end
